theory Spec2Isabelle
  imports Main "HOL-Library.Word"
begin

unbundle bit_operations_syntax

section \<open>The SiK UART bootloader (Firmware/bootloader/bootloader.c)\<close>

text \<open>
  The bootloader is one C function, \<open>bootloader()\<close>, with two static helpers
  (\<open>sync_response\<close>, \<open>get_uint16\<close>). It talks to the host through the blocking byte
  transport \<open>cin()\<close>/\<open>cout()\<close> and to program memory through the flash driver of
  \<open>flash.h\<close>. The protocol constants of \<open>bootloader.h\<close>, the board constants of
  \<open>board.h\<close> and the flash driver are not part of the file: they are parameters of the
  model.
\<close>

type_synonym uint8_t = "8 word"
type_synonym uint16_t = "16 word"

subsection \<open>Constants of the missing headers\<close>

record config =
  PROTO_OK :: uint8_t
  PROTO_INSYNC :: uint8_t
  PROTO_EOC :: uint8_t
  PROTO_GET_SYNC :: uint8_t
  PROTO_GET_DEVICE :: uint8_t
  PROTO_CHIP_ERASE :: uint8_t
  PROTO_PARAM_ERASE :: uint8_t
  PROTO_LOAD_ADDRESS :: uint8_t
  PROTO_PROG_FLASH :: uint8_t
  PROTO_READ_FLASH :: uint8_t
  PROTO_PROG_MULTI :: uint8_t
  PROTO_READ_MULTI :: uint8_t
  PROTO_REBOOT :: uint8_t
  PROTO_PROG_MULTI_MAX :: nat
  BOARD_ID :: uint8_t
  board_frequency :: uint8_t
  BL_VERSION :: uint8_t
  BUTTON_ACTIVE :: bool

text \<open>
  The ten \<open>case\<close> labels of the dispatching \<open>switch\<close>, in source order. C rejects a
  \<open>switch\<close> with two equal labels, so every configuration the file compiles with has
  them pairwise distinct.
\<close>

definition opcodes :: "config \<Rightarrow> uint8_t list" where
  "opcodes cfg =
     [PROTO_GET_SYNC cfg, PROTO_GET_DEVICE cfg, PROTO_CHIP_ERASE cfg, PROTO_PARAM_ERASE cfg,
      PROTO_LOAD_ADDRESS cfg, PROTO_PROG_FLASH cfg, PROTO_READ_FLASH cfg,
      PROTO_PROG_MULTI cfg, PROTO_READ_MULTI cfg, PROTO_REBOOT cfg]"

subsection \<open>The flash driver (flash.h), a parameter\<close>

record 'f flash_driver =
  flash_app_valid :: "'f \<Rightarrow> bool"
  flash_erase_app :: "'f \<Rightarrow> 'f"
  flash_erase_scratch :: "'f \<Rightarrow> 'f"
  flash_write_byte :: "uint16_t \<Rightarrow> uint8_t \<Rightarrow> 'f \<Rightarrow> 'f"
  flash_read_byte :: "uint16_t \<Rightarrow> 'f \<Rightarrow> uint8_t"

subsection \<open>Machine state\<close>

text \<open>
  What the device does that an observer can see, in the order it happens: bytes sent
  with \<open>cout\<close> and calls into the flash driver.
\<close>

datatype event =
  Cout uint8_t
  | FlashWrite uint16_t uint8_t
  | FlashRead uint16_t
  | EraseApp
  | EraseScratch

text \<open>
  \<open>rx\<close> holds the bytes the host has sent and \<open>cin\<close> has not yet taken; \<open>flash\<close> is
  the driver's state; \<open>address\<close> and \<open>buf\<close> are the C variables of these names;
  \<open>RSTSRC\<close>, \<open>BUTTON_BOOTLOAD\<close> and \<open>LED_BOOTLOADER\<close> (\<open>True\<close> for \<open>LED_ON\<close>) are
  the special function register and the two pins the function touches. The array is
  declared \<open>uint8_t buf[PROTO_PROG_MULTI_MAX]\<close>, so the states of the program are
  those with \<open>length (buf s) = PROTO_PROG_MULTI_MAX cfg\<close>. The locals \<open>c\<close>, \<open>count\<close>
  and \<open>i\<close> are assigned in every pass before they are read and are not part of the
  state.
\<close>

record 'f machine =
  rx :: "uint8_t list"
  trace :: "event list"
  flash :: 'f
  address :: uint16_t
  buf :: "uint8_t list"
  RSTSRC :: uint8_t
  BUTTON_BOOTLOAD :: bool
  LED_BOOTLOADER :: bool

text \<open>
  A piece of code either runs to its end (\<open>Done\<close>), or waits in \<open>cin()\<close> for a byte
  that never comes (\<open>Blocked\<close>, with the state in which it waits), or stores outside
  \<open>buf\<close>, which C leaves undefined (\<open>Overrun\<close>, with the index).
\<close>

datatype ('s, 'a) step = Blocked 's | Overrun nat | Done 'a

subsection \<open>Byte transport and flash calls\<close>

definition cin :: "'f machine \<Rightarrow> ('f machine, uint8_t \<times> 'f machine) step" where
  "cin s = (case rx s of [] \<Rightarrow> Blocked s | b # bs \<Rightarrow> Done (b, s\<lparr>rx := bs\<rparr>))"

definition cout :: "uint8_t \<Rightarrow> 'f machine \<Rightarrow> 'f machine" where
  "cout b s = s\<lparr>trace := trace s @ [Cout b]\<rparr>"

definition call_flash_write_byte ::
  "'f flash_driver \<Rightarrow> uint16_t \<Rightarrow> uint8_t \<Rightarrow> 'f machine \<Rightarrow> 'f machine" where
  "call_flash_write_byte drv a b s =
     s\<lparr>flash := flash_write_byte drv a b (flash s), trace := trace s @ [FlashWrite a b]\<rparr>"

definition call_flash_read_byte ::
  "'f flash_driver \<Rightarrow> uint16_t \<Rightarrow> 'f machine \<Rightarrow> uint8_t \<times> 'f machine" where
  "call_flash_read_byte drv a s =
     (flash_read_byte drv a (flash s), s\<lparr>trace := trace s @ [FlashRead a]\<rparr>)"

definition call_flash_erase_app :: "'f flash_driver \<Rightarrow> 'f machine \<Rightarrow> 'f machine" where
  "call_flash_erase_app drv s =
     s\<lparr>flash := flash_erase_app drv (flash s), trace := trace s @ [EraseApp]\<rparr>"

definition call_flash_erase_scratch :: "'f flash_driver \<Rightarrow> 'f machine \<Rightarrow> 'f machine" where
  "call_flash_erase_scratch drv s =
     s\<lparr>flash := flash_erase_scratch drv (flash s), trace := trace s @ [EraseScratch]\<rparr>"

subsection \<open>The static helpers\<close>

definition sync_response :: "config \<Rightarrow> 'f machine \<Rightarrow> 'f machine" where
  "sync_response cfg s = cout (PROTO_OK cfg) (cout (PROTO_INSYNC cfg) s)"

definition get_uint16 :: "'f machine \<Rightarrow> ('f machine, uint16_t \<times> 'f machine) step" where
  "get_uint16 s =
     (case cin s of
        Blocked b \<Rightarrow> Blocked b
      | Overrun k \<Rightarrow> Overrun k
      | Done (lo, s1) \<Rightarrow>
          (case cin s1 of
             Blocked b \<Rightarrow> Blocked b
           | Overrun k \<Rightarrow> Overrun k
           | Done (hi, s2) \<Rightarrow> Done (ucast lo OR push_bit 8 (ucast hi), s2)))"

subsection \<open>The three \<open>for\<close> loops over \<open>i\<close>\<close>

text \<open>
  The counter \<open>i\<close> and the bound \<open>count\<close> are both \<open>uint8_t\<close>: below the bound,
  \<open>i++\<close> does not wrap, and the distance to the bound shrinks.
\<close>

lemma counter_step:
  fixes i count :: uint8_t
  assumes "i < count"
  shows "unat count - unat (i + 1) < unat count - unat i"
proof -
  have "unat count < 256"
    using unsigned_less [of count, where 'a = nat] by simp
  with assms show ?thesis
    by (simp add: word_less_nat_alt unat_word_ariths)
qed

text \<open>\<open>for (i = 0; i < count; i++) buf[i] = cin();\<close>, entered at any \<open>i\<close>.\<close>

function stage_loop :: "uint8_t \<Rightarrow> uint8_t \<Rightarrow> 'f machine \<Rightarrow> ('f machine, 'f machine) step" where
  "stage_loop count i s =
     (if i < count then
        (case cin s of
           Blocked b \<Rightarrow> Blocked b
         | Overrun k \<Rightarrow> Overrun k
         | Done (c, s1) \<Rightarrow>
             if unat i < length (buf s1)
             then stage_loop count (i + 1) (s1\<lparr>buf := (buf s1)[unat i := c]\<rparr>)
             else Overrun (unat i))
      else Done s)"
  by pat_completeness auto
termination
  by (relation "measure (\<lambda>(count, i, s). unat count - unat i)") (auto simp: counter_step)

declare stage_loop.simps [simp del]

text \<open>\<open>for (i = 0; i < count; i++) flash_write_byte(address++, buf[i]);\<close>\<close>

function prog_loop ::
  "'f flash_driver \<Rightarrow> uint8_t \<Rightarrow> uint8_t \<Rightarrow> 'f machine \<Rightarrow> ('f machine, 'f machine) step" where
  "prog_loop drv count i s =
     (if i < count then
        if unat i < length (buf s)
        then prog_loop drv count (i + 1)
               (call_flash_write_byte drv (address s) (buf s ! unat i)
                  (s\<lparr>address := address s + 1\<rparr>))
        else Overrun (unat i)
      else Done s)"
  by pat_completeness auto
termination
  by (relation "measure (\<lambda>(drv, count, i, s). unat count - unat i)") (auto simp: counter_step)

declare prog_loop.simps [simp del]

text \<open>\<open>for (i = 0; i < count; i++) { c = flash_read_byte(address++); cout(c); }\<close>\<close>

function read_loop ::
  "'f flash_driver \<Rightarrow> uint8_t \<Rightarrow> uint8_t \<Rightarrow> 'f machine \<Rightarrow> 'f machine" where
  "read_loop drv count i s =
     (if i < count then
        (case call_flash_read_byte drv (address s) (s\<lparr>address := address s + 1\<rparr>) of
           (c, s1) \<Rightarrow> read_loop drv count (i + 1) (cout c s1))
      else s)"
  by pat_completeness auto
termination
  by (relation "measure (\<lambda>(drv, count, i, s). unat count - unat i)") (auto simp: counter_step)

declare read_loop.simps [simp del]

subsection \<open>One pass through the body of the main loop\<close>

text \<open>The two labels every path of the body ends at.\<close>

definition cmd_ok :: "config \<Rightarrow> 'f machine \<Rightarrow> ('f machine, 'f machine) step" where
  "cmd_ok cfg s = Done (sync_response cfg s)"

definition cmd_bad :: "'f machine \<Rightarrow> ('f machine, 'f machine) step" where
  "cmd_bad s = Done s"

text \<open>
  The second \<open>switch (c)\<close>. \<open>PROTO_REBOOT\<close> has no \<open>break\<close> and falls into
  \<open>default\<close>. \<open>sizeof(buf)\<close> is \<open>PROTO_PROG_MULTI_MAX\<close>.
\<close>

definition dispatch ::
  "config \<Rightarrow> 'f flash_driver \<Rightarrow> uint8_t \<Rightarrow> 'f machine \<Rightarrow> ('f machine, 'f machine) step" where
  "dispatch cfg drv c s =
     (if c = PROTO_GET_SYNC cfg then cmd_ok cfg s
      else if c = PROTO_GET_DEVICE cfg then
        cmd_ok cfg (cout (board_frequency cfg) (cout (BOARD_ID cfg) s))
      else if c = PROTO_CHIP_ERASE cfg then cmd_ok cfg (call_flash_erase_app drv s)
      else if c = PROTO_PARAM_ERASE cfg then cmd_ok cfg (call_flash_erase_scratch drv s)
      else if c = PROTO_LOAD_ADDRESS cfg then
        (case get_uint16 s of
           Blocked b \<Rightarrow> Blocked b
         | Overrun k \<Rightarrow> Overrun k
         | Done (val, s1) \<Rightarrow>
             (case cin (s1\<lparr>address := val\<rparr>) of
                Blocked b \<Rightarrow> Blocked b
              | Overrun k \<Rightarrow> Overrun k
              | Done (t, s2) \<Rightarrow> if t \<noteq> PROTO_EOC cfg then cmd_bad s2 else cmd_ok cfg s2))
      else if c = PROTO_PROG_FLASH cfg then
        (case cin s of
           Blocked b \<Rightarrow> Blocked b
         | Overrun k \<Rightarrow> Overrun k
         | Done (c1, s1) \<Rightarrow>
             (case cin s1 of
                Blocked b \<Rightarrow> Blocked b
              | Overrun k \<Rightarrow> Overrun k
              | Done (t, s2) \<Rightarrow>
                  if t \<noteq> PROTO_EOC cfg then cmd_bad s2
                  else cmd_ok cfg
                         (call_flash_write_byte drv (address s2) c1
                            (s2\<lparr>address := address s2 + 1\<rparr>))))
      else if c = PROTO_READ_FLASH cfg then
        (case call_flash_read_byte drv (address s) (s\<lparr>address := address s + 1\<rparr>) of
           (c1, s1) \<Rightarrow> cmd_ok cfg (cout c1 s1))
      else if c = PROTO_PROG_MULTI cfg then
        (case cin s of
           Blocked b \<Rightarrow> Blocked b
         | Overrun k \<Rightarrow> Overrun k
         | Done (count, s1) \<Rightarrow>
             if unat count > PROTO_PROG_MULTI_MAX cfg then cmd_bad s1
             else
               (case stage_loop count 0 s1 of
                  Blocked b \<Rightarrow> Blocked b
                | Overrun k \<Rightarrow> Overrun k
                | Done s2 \<Rightarrow>
                    (case cin s2 of
                       Blocked b \<Rightarrow> Blocked b
                     | Overrun k \<Rightarrow> Overrun k
                     | Done (t, s3) \<Rightarrow>
                         if t \<noteq> PROTO_EOC cfg then cmd_bad s3
                         else
                           (case prog_loop drv count 0 s3 of
                              Blocked b \<Rightarrow> Blocked b
                            | Overrun k \<Rightarrow> Overrun k
                            | Done s4 \<Rightarrow> cmd_ok cfg s4))))
      else if c = PROTO_READ_MULTI cfg then
        (case cin s of
           Blocked b \<Rightarrow> Blocked b
         | Overrun k \<Rightarrow> Overrun k
         | Done (count, s1) \<Rightarrow>
             (case cin s1 of
                Blocked b \<Rightarrow> Blocked b
              | Overrun k \<Rightarrow> Overrun k
              | Done (t, s2) \<Rightarrow>
                  if t \<noteq> PROTO_EOC cfg then cmd_bad s2
                  else cmd_ok cfg (read_loop drv count 0 s2)))
      else if c = PROTO_REBOOT cfg then
        cmd_bad (s\<lparr>RSTSRC := RSTSRC s OR push_bit 4 1\<rparr>)
      else cmd_bad s)"

text \<open>
  The body of \<open>for (;;)\<close>: wait for the command byte with the LED on, then the first
  \<open>switch (c)\<close> (the common test for the end-of-command byte), then the second.
\<close>

definition command ::
  "config \<Rightarrow> 'f flash_driver \<Rightarrow> 'f machine \<Rightarrow> ('f machine, 'f machine) step" where
  "command cfg drv s =
     (case cin (s\<lparr>LED_BOOTLOADER := True\<rparr>) of
        Blocked b \<Rightarrow> Blocked b
      | Overrun k \<Rightarrow> Overrun k
      | Done (c, s0) \<Rightarrow>
          let s1 = s0\<lparr>LED_BOOTLOADER := False\<rparr> in
          if c = PROTO_GET_SYNC cfg \<or> c = PROTO_GET_DEVICE cfg \<or> c = PROTO_CHIP_ERASE cfg
             \<or> c = PROTO_PARAM_ERASE cfg \<or> c = PROTO_READ_FLASH cfg
          then
            (case cin s1 of
               Blocked b \<Rightarrow> Blocked b
             | Overrun k \<Rightarrow> Overrun k
             | Done (t, s2) \<Rightarrow>
                 if t \<noteq> PROTO_EOC cfg then cmd_bad s2 else dispatch cfg drv c s2)
          else dispatch cfg drv c s1)"

section \<open>Properties of the byte transport and of the loops\<close>

lemma cin_Cons: "rx s = b # bs \<Longrightarrow> cin s = Done (b, s\<lparr>rx := bs\<rparr>)"
  by (simp add: cin_def)

lemma cin_Nil: "rx s = [] \<Longrightarrow> cin s = Blocked s"
  by (simp add: cin_def)

lemma counter_Suc:
  fixes i count :: uint8_t
  assumes "i < count"
  shows "unat (i + 1) = Suc (unat i)"
proof -
  have "unat count < 256"
    using unsigned_less [of count, where 'a = nat] by simp
  with assms show ?thesis
    by (simp add: word_less_nat_alt unat_word_ariths)
qed

lemma counter_le: 
  fixes i count :: uint8_t
  assumes "i < count"
  shows "i + 1 \<le> count"
  using assms counter_Suc [OF assms] by (simp add: word_less_nat_alt word_le_nat_alt)

lemma stage_loop_done:
  assumes "length ds = unat count - unat i" "i \<le> count" "unat count \<le> length (buf s)"
    "rx s = ds @ rest"
  shows "stage_loop count i s =
           Done (s\<lparr>rx := rest, buf := take (unat i) (buf s) @ ds @ drop (unat count) (buf s)\<rparr>)"
  using assms
proof (induction ds arbitrary: i s)
  case Nil
  then have "\<not> i < count"
    by (simp add: word_less_nat_alt word_le_nat_alt)
  moreover from Nil have "unat i = unat count"
    by (simp add: word_le_nat_alt)
  ultimately show ?case
    using Nil by (subst stage_loop.simps) simp
next
  case (Cons d ds)
  then have lt: "i < count"
    by (simp add: word_less_nat_alt)
  have suc: "unat (i + 1) = Suc (unat i)"
    by (rule counter_Suc [OF lt])
  have inb: "unat i < length (buf s)"
    using lt Cons.prems(3) by (simp add: word_less_nat_alt)
  let ?s1 = "s\<lparr>rx := ds @ rest, buf := (buf s)[unat i := d]\<rparr>"
  have ih: "stage_loop count (i + 1) ?s1 =
      Done (?s1\<lparr>rx := rest,
                  buf := take (unat (i + 1)) (buf ?s1) @ ds @ drop (unat count) (buf ?s1)\<rparr>)"
    using Cons.prems suc
    by (intro Cons.IH) (simp_all add: counter_le [OF lt])
  have tk: "take (Suc (unat i)) ((buf s)[unat i := d]) = take (unat i) (buf s) @ [d]"
    using inb by (simp add: take_Suc_conv_app_nth)
  have dr: "drop (unat count) ((buf s)[unat i := d]) = drop (unat count) (buf s)"
    using lt by (simp add: word_less_nat_alt)
  show ?case
    using lt inb Cons.prems(4) ih
    by (subst stage_loop.simps) (simp add: cin_def suc tk dr)
qed


lemma upt_shift: "map f [0..<Suc m] = f 0 # map (\<lambda>k. f (Suc k)) [0..<m]"
proof -
  have "[0..<Suc m] = 0 # map Suc [0..<m]"
    by (simp only: map_Suc_upt upt_conv_Cons [OF zero_less_Suc])
  then show ?thesis
    by (simp only: list.map map_map comp_def)
qed

lemma fold_shift: "fold f [0..<Suc m] x = fold (\<lambda>k. f (Suc k)) [0..<m] (f 0 x)"
proof -
  have "[0..<Suc m] = 0 # map Suc [0..<m]"
    by (simp only: map_Suc_upt upt_conv_Cons [OF zero_less_Suc])
  then show ?thesis
    by (simp only: fold_simps fold_map comp_def)
qed

lemma prog_loop_done:
  assumes "n = unat count - unat i" "i \<le> count" "unat count \<le> length (buf s)"
  shows "prog_loop drv count i s =
           Done (s\<lparr>address := address s + of_nat n,
                   flash := fold (\<lambda>k. flash_write_byte drv (address s + of_nat k) (buf s ! (unat i + k)))
                              [0..<n] (flash s),
                   trace := trace s @
                              map (\<lambda>k. FlashWrite (address s + of_nat k) (buf s ! (unat i + k))) [0..<n]\<rparr>)"
  using assms
proof (induction n arbitrary: i s)
  case 0
  then have "\<not> i < count"
    by (simp add: word_less_nat_alt word_le_nat_alt)
  then show ?case
    by (subst prog_loop.simps) simp
next
  case (Suc m)
  then have lt: "i < count"
    by (simp add: word_less_nat_alt)
  have suc: "unat (i + 1) = Suc (unat i)"
    by (rule counter_Suc [OF lt])
  have inb: "unat i < length (buf s)"
    using lt Suc.prems(3) by (simp add: word_less_nat_alt)
  define s1 where "s1 = call_flash_write_byte drv (address s) (buf s ! unat i) (s\<lparr>address := address s + 1\<rparr>)"
  have s1: "address s1 = address s + 1" "buf s1 = buf s"
    "flash s1 = flash_write_byte drv (address s) (buf s ! unat i) (flash s)"
    "trace s1 = trace s @ [FlashWrite (address s) (buf s ! unat i)]"
    by (simp_all add: s1_def call_flash_write_byte_def)
  have m: "m = unat count - unat (i + 1)"
    using Suc.prems(1) suc by simp
  have le: "i + 1 \<le> count"
    by (rule counter_le [OF lt])
  have b: "unat count \<le> length (buf s1)"
    using Suc.prems(3) s1 by simp
  note ih = Suc.IH [OF m le b]
  have unf: "prog_loop drv count i s = prog_loop drv count (i + 1) s1"
    using lt inb by (subst prog_loop.simps) (simp add: s1_def)
  have a: "\<And>k. address s + 1 + of_nat k = address s + of_nat (Suc k)"
    by simp
  show ?case
    unfolding unf ih s1 suc fold_shift [where m = m] upt_shift [where m = m] a
    by (simp add: s1_def call_flash_write_byte_def)
qed


lemma concat_shift:
  "concat (map f [0..<Suc m]) = f 0 @ concat (map (\<lambda>k. f (Suc k)) [0..<m])"
  by (simp only: upt_shift [where m = m] concat.simps)

lemma read_loop_done:
  assumes "n = unat count - unat i" "i \<le> count"
  shows "read_loop drv count i s =
           s\<lparr>address := address s + of_nat n,
             trace := trace s @
               concat (map (\<lambda>k. [FlashRead (address s + of_nat k),
                                  Cout (flash_read_byte drv (address s + of_nat k) (flash s))]) [0..<n])\<rparr>"
  using assms
proof (induction n arbitrary: i s)
  case 0
  then have "\<not> i < count"
    by (simp add: word_less_nat_alt word_le_nat_alt)
  then show ?case
    by (subst read_loop.simps) simp
next
  case (Suc m)
  then have lt: "i < count"
    by (simp add: word_less_nat_alt)
  have suc: "unat (i + 1) = Suc (unat i)"
    by (rule counter_Suc [OF lt])
  define s1 where "s1 = cout (flash_read_byte drv (address s) (flash s))
                          (s\<lparr>address := address s + 1, trace := trace s @ [FlashRead (address s)]\<rparr>)"
  have s1: "address s1 = address s + 1" "flash s1 = flash s"
    "trace s1 = trace s @ [FlashRead (address s), Cout (flash_read_byte drv (address s) (flash s))]"
    by (simp_all add: s1_def cout_def)
  have m: "m = unat count - unat (i + 1)"
    using Suc.prems(1) suc by simp
  have le: "i + 1 \<le> count"
    by (rule counter_le [OF lt])
  note ih = Suc.IH [OF m le]
  have unf: "read_loop drv count i s = read_loop drv count (i + 1) s1"
    using lt by (subst read_loop.simps) (simp add: s1_def call_flash_read_byte_def)
  have a: "\<And>k. address s + 1 + of_nat k = address s + of_nat (Suc k)"
    by simp
  show ?case
    unfolding unf ih s1 concat_shift [where m = m] a
    by (simp add: s1_def cout_def)
qed

lemma stage_loop_keeps:
  "stage_loop count i s = Done s' \<Longrightarrow>
     length (rx s') \<le> length (rx s) \<and> length (buf s') = length (buf s) \<and>
     flash s' = flash s \<and> trace s' = trace s \<and> address s' = address s"
proof (induction count i s rule: stage_loop.induct)
  case (1 count i s)
  show ?case
  proof (cases "i < count")
    case False
    with "1.prems" show ?thesis
      by (subst (asm) stage_loop.simps) simp
  next
    case True
    show ?thesis
    proof (cases "rx s")
      case Nil
      with True "1.prems" show ?thesis
        by (subst (asm) stage_loop.simps) (simp add: cin_def)
    next
      case (Cons c cs)
      let ?s1 = "s\<lparr>rx := cs\<rparr>"
      have c: "cin s = Done (c, ?s1)"
        using Cons by (simp add: cin_def)
      show ?thesis
      proof (cases "unat i < length (buf s)")
        case False
        with True c "1.prems" show ?thesis
          by (subst (asm) stage_loop.simps) simp
      next
        case inb: True
        have "stage_loop count (i + 1) (?s1\<lparr>buf := (buf ?s1)[unat i := c]\<rparr>) = Done s'"
          using True c inb "1.prems" by (subst (asm) stage_loop.simps) simp
        from "1.IH" [OF True c refl _ this] inb Cons show ?thesis
          by simp
      qed
    qed
  qed
qed

lemma stage_loop_no_overrun:
  "unat count \<le> length (buf s) \<Longrightarrow> stage_loop count i s \<noteq> Overrun k"
proof (induction count i s rule: stage_loop.induct)
  case (1 count i s)
  show ?case
  proof (cases "i < count")
    case False
    then show ?thesis
      by (subst stage_loop.simps) simp
  next
    case True
    then have inb: "unat i < length (buf s)"
      using "1.prems" by (simp add: word_less_nat_alt)
    show ?thesis
    proof (cases "rx s")
      case Nil
      with True show ?thesis
        by (subst stage_loop.simps) (simp add: cin_def)
    next
      case (Cons c cs)
      let ?s1 = "s\<lparr>rx := cs\<rparr>"
      have c: "cin s = Done (c, ?s1)"
        using Cons by (simp add: cin_def)
      have "stage_loop count (i + 1) (?s1\<lparr>buf := (buf ?s1)[unat i := c]\<rparr>) \<noteq> Overrun k"
        using "1.IH" [OF True c refl] inb "1.prems" by simp
      then show ?thesis
        using True c inb by (subst stage_loop.simps) simp
    qed
  qed
qed

lemma prog_loop_no_overrun:
  "unat count \<le> length (buf s) \<Longrightarrow> prog_loop drv count i s \<noteq> Overrun k"
proof (induction drv count i s rule: prog_loop.induct)
  case (1 drv count i s)
  show ?case
  proof (cases "i < count")
    case False
    then show ?thesis
      by (subst prog_loop.simps) simp
  next
    case True
    then have inb: "unat i < length (buf s)"
      using "1.prems" by (simp add: word_less_nat_alt)
    have "prog_loop drv count (i + 1)
            (call_flash_write_byte drv (address s) (buf s ! unat i) (s\<lparr>address := address s + 1\<rparr>))
          \<noteq> Overrun k"
      using "1.IH" [OF True inb] "1.prems" by (simp add: call_flash_write_byte_def)
    then show ?thesis
      using True inb by (subst prog_loop.simps) simp
  qed
qed

lemma cin_Done_iff: "cin s = Done (b, s') \<longleftrightarrow> (\<exists>bs. rx s = b # bs \<and> s' = s\<lparr>rx := bs\<rparr>)"
  by (cases "rx s") (auto simp: cin_def)

lemma cin_not_Overrun [simp]: "cin s \<noteq> Overrun k"
  by (simp add: cin_def split: list.splits)

lemma prog_loop_keeps:
  "prog_loop drv count i s = Done s' \<Longrightarrow> rx s' = rx s \<and> buf s' = buf s"
proof (induction drv count i s rule: prog_loop.induct)
  case (1 drv count i s)
  show ?case
  proof (cases "i < count \<and> unat i < length (buf s)")
    case False
    with "1.prems" show ?thesis
      by (subst (asm) prog_loop.simps) (auto split: if_splits)
  next
    case True
    let ?s1 = "call_flash_write_byte drv (address s) (buf s ! unat i) (s\<lparr>address := address s + 1\<rparr>)"
    have "prog_loop drv count (i + 1) ?s1 = Done s'"
      using True "1.prems" by (subst (asm) prog_loop.simps) simp
    from "1.IH" [OF _ _ this] True show ?thesis
      by (simp add: call_flash_write_byte_def)
  qed
qed

lemma read_loop_rx: "rx (read_loop drv count 0 s) = rx s"
  by (simp add: read_loop_done [OF refl])

lemma read_loop_buf: "buf (read_loop drv count 0 s) = buf s"
  by (simp add: read_loop_done [OF refl])

lemma get_uint16_Done:
  "get_uint16 s = Done (v, s') \<Longrightarrow> length (rx s') < length (rx s) \<and> buf s' = buf s"
  by (auto simp: get_uint16_def cin_Done_iff split: step.splits)

lemma dispatch_keeps:
  assumes "dispatch cfg drv c s = Done s'"
  shows "length (rx s') \<le> length (rx s) \<and> length (buf s') = length (buf s)"
proof -
  have ok: "\<And>u. cmd_ok cfg u = Done s' \<Longrightarrow> rx s' = rx u \<and> buf s' = buf u"
    by (auto simp: cmd_ok_def sync_response_def cout_def)
  have bad: "\<And>u. cmd_bad u = Done s' \<Longrightarrow> rx s' = rx u \<and> buf s' = buf u"
    by (auto simp: cmd_bad_def)
  consider (sync) "c = PROTO_GET_SYNC cfg"
    | (dev) "c \<noteq> PROTO_GET_SYNC cfg" "c = PROTO_GET_DEVICE cfg"
    | (erase) "c \<noteq> PROTO_GET_SYNC cfg" "c \<noteq> PROTO_GET_DEVICE cfg" "c = PROTO_CHIP_ERASE cfg"
    | (param) "c \<noteq> PROTO_GET_SYNC cfg" "c \<noteq> PROTO_GET_DEVICE cfg" "c \<noteq> PROTO_CHIP_ERASE cfg"
        "c = PROTO_PARAM_ERASE cfg"
    | (load) "c \<noteq> PROTO_GET_SYNC cfg" "c \<noteq> PROTO_GET_DEVICE cfg" "c \<noteq> PROTO_CHIP_ERASE cfg"
        "c \<noteq> PROTO_PARAM_ERASE cfg" "c = PROTO_LOAD_ADDRESS cfg"
    | (prog) "c \<noteq> PROTO_GET_SYNC cfg" "c \<noteq> PROTO_GET_DEVICE cfg" "c \<noteq> PROTO_CHIP_ERASE cfg"
        "c \<noteq> PROTO_PARAM_ERASE cfg" "c \<noteq> PROTO_LOAD_ADDRESS cfg" "c = PROTO_PROG_FLASH cfg"
    | (read) "c \<noteq> PROTO_GET_SYNC cfg" "c \<noteq> PROTO_GET_DEVICE cfg" "c \<noteq> PROTO_CHIP_ERASE cfg"
        "c \<noteq> PROTO_PARAM_ERASE cfg" "c \<noteq> PROTO_LOAD_ADDRESS cfg" "c \<noteq> PROTO_PROG_FLASH cfg"
        "c = PROTO_READ_FLASH cfg"
    | (pmulti) "c \<noteq> PROTO_GET_SYNC cfg" "c \<noteq> PROTO_GET_DEVICE cfg" "c \<noteq> PROTO_CHIP_ERASE cfg"
        "c \<noteq> PROTO_PARAM_ERASE cfg" "c \<noteq> PROTO_LOAD_ADDRESS cfg" "c \<noteq> PROTO_PROG_FLASH cfg"
        "c \<noteq> PROTO_READ_FLASH cfg" "c = PROTO_PROG_MULTI cfg"
    | (rmulti) "c \<noteq> PROTO_GET_SYNC cfg" "c \<noteq> PROTO_GET_DEVICE cfg" "c \<noteq> PROTO_CHIP_ERASE cfg"
        "c \<noteq> PROTO_PARAM_ERASE cfg" "c \<noteq> PROTO_LOAD_ADDRESS cfg" "c \<noteq> PROTO_PROG_FLASH cfg"
        "c \<noteq> PROTO_READ_FLASH cfg" "c \<noteq> PROTO_PROG_MULTI cfg" "c = PROTO_READ_MULTI cfg"
    | (other) "c \<noteq> PROTO_GET_SYNC cfg" "c \<noteq> PROTO_GET_DEVICE cfg" "c \<noteq> PROTO_CHIP_ERASE cfg"
        "c \<noteq> PROTO_PARAM_ERASE cfg" "c \<noteq> PROTO_LOAD_ADDRESS cfg" "c \<noteq> PROTO_PROG_FLASH cfg"
        "c \<noteq> PROTO_READ_FLASH cfg" "c \<noteq> PROTO_PROG_MULTI cfg" "c \<noteq> PROTO_READ_MULTI cfg"
    by blast
  then show ?thesis
  proof cases
    case sync
    with assms have "cmd_ok cfg s = Done s'"
      by (simp add: dispatch_def)
    then show ?thesis by (simp add: ok)
  next
    case dev
    with assms have "cmd_ok cfg (cout (board_frequency cfg) (cout (BOARD_ID cfg) s)) = Done s'"
      by (simp add: dispatch_def)
    then show ?thesis by (simp add: ok cout_def)
  next
    case erase
    with assms have "cmd_ok cfg (call_flash_erase_app drv s) = Done s'"
      by (simp add: dispatch_def)
    then show ?thesis by (simp add: ok call_flash_erase_app_def)
  next
    case param
    with assms have "cmd_ok cfg (call_flash_erase_scratch drv s) = Done s'"
      by (simp add: dispatch_def)
    then show ?thesis by (simp add: ok call_flash_erase_scratch_def)
  next
    case load
    with assms show ?thesis
      by (auto simp: dispatch_def cin_Done_iff split: step.splits if_splits
          dest!: get_uint16_Done ok bad)
  next
    case prog
    with assms show ?thesis
      by (auto simp: dispatch_def cin_Done_iff call_flash_write_byte_def split: step.splits if_splits
          dest!: ok bad)
  next
    case read
    with assms show ?thesis
      by (auto simp: dispatch_def call_flash_read_byte_def cout_def dest!: ok)
  next
    case pmulti
    with assms show ?thesis
      by (auto simp: dispatch_def cin_Done_iff split: step.splits if_splits
          dest!: stage_loop_keeps prog_loop_keeps ok bad)
  next
    case rmulti
    with assms show ?thesis
      by (auto simp: dispatch_def cin_Done_iff read_loop_rx read_loop_buf split: step.splits if_splits
          dest!: ok bad)
  next
    case other
    with assms show ?thesis
      by (auto simp: dispatch_def split: if_splits dest!: bad)
  qed
qed

lemma command_keeps:
  assumes "command cfg drv s = Done s'"
  shows "length (rx s') < length (rx s) \<and> length (buf s') = length (buf s)"
proof (cases "rx s")
  case Nil
  with assms show ?thesis
    by (simp add: command_def cin_def)
next
  case (Cons c cs)
  then have c: "cin (s\<lparr>LED_BOOTLOADER := True\<rparr>) = Done (c, s\<lparr>LED_BOOTLOADER := True, rx := cs\<rparr>)"
    by (simp add: cin_def)
  show ?thesis
    using assms Cons unfolding command_def c
    by (auto simp: Let_def cmd_bad_def cin_Done_iff split: if_splits step.splits dest!: dispatch_keeps)
qed

lemma command_consumes:
  "command cfg drv s = Done s' \<Longrightarrow> length (rx s') < length (rx s)"
  by (simp add: command_keeps)

subsection \<open>The main loop and the entry point\<close>

text \<open>
  \<open>for (;;)\<close> around the body. Every pass takes at least the command byte, so on the
  finitely many bytes a host has sent the loop ends up waiting in \<open>cin()\<close>.
\<close>

function main_loop ::
  "config \<Rightarrow> 'f flash_driver \<Rightarrow> 'f machine \<Rightarrow> ('f machine, 'f machine) step" where
  "main_loop cfg drv s =
     (case command cfg drv s of
        Blocked b \<Rightarrow> Blocked b
      | Overrun k \<Rightarrow> Overrun k
      | Done s1 \<Rightarrow> main_loop cfg drv s1)"
  by pat_completeness auto
termination
  by (relation "measure (\<lambda>(cfg, drv, s). length (rx s))") (auto simp: command_consumes)

declare main_loop.simps [simp del]

text \<open>
  \<open>bootloader()\<close>. \<open>hardware_init()\<close> only configures clock, timer, UART, crossbar
  and reset sources and is left out; \<open>RSTSRC\<close> is the value the register reads as after
  it. The jump to \<open>FLASH_APP_START\<close> hands the device to the application, with the two
  bytes stashed in \<open>BOARD_FREQUENCY_REG\<close> and \<open>BOARD_BL_VERSION_REG\<close>.
\<close>

datatype 'f outcome =
  Application uint8_t uint8_t
  | CommandLoop "('f machine, 'f machine) step"

definition bootloader :: "config \<Rightarrow> 'f flash_driver \<Rightarrow> 'f machine \<Rightarrow> 'f outcome" where
  "bootloader cfg drv s =
     (let s0 = s\<lparr>LED_BOOTLOADER := True\<rparr> in
      if \<not> (RSTSRC s0 AND push_bit 6 1 \<noteq> 0) \<and> flash_app_valid drv (flash s0)
         \<and> BUTTON_BOOTLOAD s0 \<noteq> BUTTON_ACTIVE cfg
      then Application (board_frequency cfg) (BL_VERSION cfg)
      else CommandLoop (main_loop cfg drv (s0\<lparr>address := 0\<rparr>)))"

text \<open>The loop has no exit: it never runs to an end.\<close>

lemma main_loop_never_done: "main_loop cfg drv s \<noteq> Done s'"
proof (induction cfg drv s rule: main_loop.induct)
  case (1 cfg drv s)
  then show ?case
    by (subst main_loop.simps) (simp split: step.splits)
qed

section \<open>What one pass does on each frame\<close>

lemma opcodes_distinct:
  assumes "distinct (opcodes cfg)"
  shows "PROTO_GET_SYNC cfg \<noteq> PROTO_GET_DEVICE cfg" "PROTO_GET_SYNC cfg \<noteq> PROTO_CHIP_ERASE cfg"
    "PROTO_GET_SYNC cfg \<noteq> PROTO_PARAM_ERASE cfg" "PROTO_GET_SYNC cfg \<noteq> PROTO_LOAD_ADDRESS cfg"
    "PROTO_GET_SYNC cfg \<noteq> PROTO_PROG_FLASH cfg" "PROTO_GET_SYNC cfg \<noteq> PROTO_READ_FLASH cfg"
    "PROTO_GET_SYNC cfg \<noteq> PROTO_PROG_MULTI cfg" "PROTO_GET_SYNC cfg \<noteq> PROTO_READ_MULTI cfg"
    "PROTO_GET_SYNC cfg \<noteq> PROTO_REBOOT cfg"
    "PROTO_GET_DEVICE cfg \<noteq> PROTO_CHIP_ERASE cfg"
    "PROTO_GET_DEVICE cfg \<noteq> PROTO_PARAM_ERASE cfg" "PROTO_GET_DEVICE cfg \<noteq> PROTO_LOAD_ADDRESS cfg"
    "PROTO_GET_DEVICE cfg \<noteq> PROTO_PROG_FLASH cfg" "PROTO_GET_DEVICE cfg \<noteq> PROTO_READ_FLASH cfg"
    "PROTO_GET_DEVICE cfg \<noteq> PROTO_PROG_MULTI cfg" "PROTO_GET_DEVICE cfg \<noteq> PROTO_READ_MULTI cfg"
    "PROTO_GET_DEVICE cfg \<noteq> PROTO_REBOOT cfg"
    "PROTO_CHIP_ERASE cfg \<noteq> PROTO_PARAM_ERASE cfg" "PROTO_CHIP_ERASE cfg \<noteq> PROTO_LOAD_ADDRESS cfg"
    "PROTO_CHIP_ERASE cfg \<noteq> PROTO_PROG_FLASH cfg" "PROTO_CHIP_ERASE cfg \<noteq> PROTO_READ_FLASH cfg"
    "PROTO_CHIP_ERASE cfg \<noteq> PROTO_PROG_MULTI cfg" "PROTO_CHIP_ERASE cfg \<noteq> PROTO_READ_MULTI cfg"
    "PROTO_CHIP_ERASE cfg \<noteq> PROTO_REBOOT cfg"
    "PROTO_PARAM_ERASE cfg \<noteq> PROTO_LOAD_ADDRESS cfg"
    "PROTO_PARAM_ERASE cfg \<noteq> PROTO_PROG_FLASH cfg" "PROTO_PARAM_ERASE cfg \<noteq> PROTO_READ_FLASH cfg"
    "PROTO_PARAM_ERASE cfg \<noteq> PROTO_PROG_MULTI cfg" "PROTO_PARAM_ERASE cfg \<noteq> PROTO_READ_MULTI cfg"
    "PROTO_PARAM_ERASE cfg \<noteq> PROTO_REBOOT cfg"
    "PROTO_LOAD_ADDRESS cfg \<noteq> PROTO_PROG_FLASH cfg" "PROTO_LOAD_ADDRESS cfg \<noteq> PROTO_READ_FLASH cfg"
    "PROTO_LOAD_ADDRESS cfg \<noteq> PROTO_PROG_MULTI cfg" "PROTO_LOAD_ADDRESS cfg \<noteq> PROTO_READ_MULTI cfg"
    "PROTO_LOAD_ADDRESS cfg \<noteq> PROTO_REBOOT cfg"
    "PROTO_PROG_FLASH cfg \<noteq> PROTO_READ_FLASH cfg"
    "PROTO_PROG_FLASH cfg \<noteq> PROTO_PROG_MULTI cfg" "PROTO_PROG_FLASH cfg \<noteq> PROTO_READ_MULTI cfg"
    "PROTO_PROG_FLASH cfg \<noteq> PROTO_REBOOT cfg"
    "PROTO_READ_FLASH cfg \<noteq> PROTO_PROG_MULTI cfg" "PROTO_READ_FLASH cfg \<noteq> PROTO_READ_MULTI cfg"
    "PROTO_READ_FLASH cfg \<noteq> PROTO_REBOOT cfg"
    "PROTO_PROG_MULTI cfg \<noteq> PROTO_READ_MULTI cfg" "PROTO_PROG_MULTI cfg \<noteq> PROTO_REBOOT cfg"
    "PROTO_READ_MULTI cfg \<noteq> PROTO_REBOOT cfg"
  using assms by (simp_all add: opcodes_def)

lemmas opcodes_neq = opcodes_distinct opcodes_distinct [symmetric]

lemma take_command:
  "cin (s\<lparr>rx := c # rest, LED_BOOTLOADER := True\<rparr>) = Done (c, s\<lparr>rx := rest, LED_BOOTLOADER := True\<rparr>)"
  by (simp add: cin_def)

lemma take_byte: "cin (s\<lparr>rx := c # rest\<rparr>) = Done (c, s\<lparr>rx := rest\<rparr>)"
  by (simp add: cin_def)


lemma command_get_sync:
  "command cfg drv (s\<lparr>rx := PROTO_GET_SYNC cfg # PROTO_EOC cfg # rest\<rparr>) =
     Done (s\<lparr>rx := rest, LED_BOOTLOADER := False,
             trace := trace s @ [Cout (PROTO_INSYNC cfg), Cout (PROTO_OK cfg)]\<rparr>)"
  by (simp add: command_def cin_def dispatch_def cmd_ok_def sync_response_def cout_def)

lemma command_get_device:
  assumes "distinct (opcodes cfg)"
  shows "command cfg drv (s\<lparr>rx := PROTO_GET_DEVICE cfg # PROTO_EOC cfg # rest\<rparr>) =
     Done (s\<lparr>rx := rest, LED_BOOTLOADER := False,
             trace := trace s @ [Cout (BOARD_ID cfg), Cout (board_frequency cfg),
                                 Cout (PROTO_INSYNC cfg), Cout (PROTO_OK cfg)]\<rparr>)"
  using opcodes_neq [OF assms]
  by (simp add: command_def cin_def dispatch_def cmd_ok_def sync_response_def cout_def)

lemma command_chip_erase:
  assumes "distinct (opcodes cfg)"
  shows "command cfg drv (s\<lparr>rx := PROTO_CHIP_ERASE cfg # PROTO_EOC cfg # rest\<rparr>) =
     Done (s\<lparr>rx := rest, LED_BOOTLOADER := False, flash := flash_erase_app drv (flash s),
             trace := trace s @ [EraseApp, Cout (PROTO_INSYNC cfg), Cout (PROTO_OK cfg)]\<rparr>)"
  using opcodes_neq [OF assms]
  by (simp add: command_def cin_def dispatch_def cmd_ok_def sync_response_def cout_def
      call_flash_erase_app_def)

lemma command_param_erase:
  assumes "distinct (opcodes cfg)"
  shows "command cfg drv (s\<lparr>rx := PROTO_PARAM_ERASE cfg # PROTO_EOC cfg # rest\<rparr>) =
     Done (s\<lparr>rx := rest, LED_BOOTLOADER := False, flash := flash_erase_scratch drv (flash s),
             trace := trace s @ [EraseScratch, Cout (PROTO_INSYNC cfg), Cout (PROTO_OK cfg)]\<rparr>)"
  using opcodes_neq [OF assms]
  by (simp add: command_def cin_def dispatch_def cmd_ok_def sync_response_def cout_def
      call_flash_erase_scratch_def)

lemma command_load_address:
  assumes "distinct (opcodes cfg)"
  shows "command cfg drv (s\<lparr>rx := PROTO_LOAD_ADDRESS cfg # lo # hi # t # rest\<rparr>) =
     Done (if t \<noteq> PROTO_EOC cfg
           then s\<lparr>rx := rest, LED_BOOTLOADER := False,
                  address := ucast lo OR push_bit 8 (ucast hi)\<rparr>
           else s\<lparr>rx := rest, LED_BOOTLOADER := False,
                  address := ucast lo OR push_bit 8 (ucast hi),
                  trace := trace s @ [Cout (PROTO_INSYNC cfg), Cout (PROTO_OK cfg)]\<rparr>)"
  using opcodes_neq [OF assms]
  by (simp add: command_def cin_def dispatch_def get_uint16_def cmd_ok_def cmd_bad_def
      sync_response_def cout_def)

lemma command_prog_flash:
  assumes "distinct (opcodes cfg)"
  shows "command cfg drv (s\<lparr>rx := PROTO_PROG_FLASH cfg # d # t # rest\<rparr>) =
     Done (if t \<noteq> PROTO_EOC cfg
           then s\<lparr>rx := rest, LED_BOOTLOADER := False\<rparr>
           else s\<lparr>rx := rest, LED_BOOTLOADER := False, address := address s + 1,
                  flash := flash_write_byte drv (address s) d (flash s),
                  trace := trace s @ [FlashWrite (address s) d,
                                      Cout (PROTO_INSYNC cfg), Cout (PROTO_OK cfg)]\<rparr>)"
  using opcodes_neq [OF assms]
  by (simp add: command_def cin_def dispatch_def cmd_ok_def cmd_bad_def
      sync_response_def cout_def call_flash_write_byte_def)

lemma command_read_flash:
  assumes "distinct (opcodes cfg)"
  shows "command cfg drv (s\<lparr>rx := PROTO_READ_FLASH cfg # PROTO_EOC cfg # rest\<rparr>) =
     Done (s\<lparr>rx := rest, LED_BOOTLOADER := False, address := address s + 1,
             trace := trace s @ [FlashRead (address s),
                                 Cout (flash_read_byte drv (address s) (flash s)),
                                 Cout (PROTO_INSYNC cfg), Cout (PROTO_OK cfg)]\<rparr>)"
  using opcodes_neq [OF assms]
  by (simp add: command_def cin_def dispatch_def cmd_ok_def
      sync_response_def cout_def call_flash_read_byte_def)


lemma command_unknown:
  assumes "c \<notin> set (opcodes cfg)"
  shows "command cfg drv (s\<lparr>rx := c # rest\<rparr>) = Done (s\<lparr>rx := rest, LED_BOOTLOADER := False\<rparr>)"
  using assms by (simp add: opcodes_def command_def cin_def dispatch_def cmd_bad_def)

lemma unat_ucast_count: "unat (ucast (n :: uint8_t) :: uint16_t) = unat n"
proof -
  have "unat n < 2 ^ 16"
    using unsigned_less [of n, where 'a = nat] by simp
  then show ?thesis
    by (simp add: unsigned_ucast_eq take_bit_nat_eq_self)
qed

lemma cursor_add_count:
  "unat (a + ucast (n :: uint8_t) :: uint16_t) = (unat a + unat n) mod 65536"
  by (simp add: unat_word_ariths unat_ucast_count)

lemma cursor_add_nat:
  "(a :: uint16_t) + of_nat k = word_of_nat ((unat a + k) mod 65536)"
proof -
  have "unat (a + of_nat k) = (unat a + k) mod 65536"
    by (simp add: unat_word_ariths unsigned_of_nat take_bit_eq_mod mod_add_right_eq)
  then show ?thesis
    by (simp add: word_eq_iff_unsigned [where 'a = nat] unsigned_of_nat take_bit_eq_mod)
qed

lemma decode_le:
  "unat (ucast (lo :: uint8_t) OR push_bit 8 (ucast (hi :: uint8_t)) :: uint16_t) = unat lo + 256 * unat hi"
proof -
  have disj: "ucast lo AND push_bit 8 (ucast hi :: uint16_t) = 0"
    by (rule bit_eqI) (auto simp: bit_simps dest: bit_imp_le_length)
  have "ucast lo OR push_bit 8 (ucast hi :: uint16_t) = ucast lo + push_bit 8 (ucast hi)"
    using disj by (simp add: disjunctive_add_eq_or)
  moreover have "unat lo < 256" "unat hi < 256"
    using unsigned_less [of lo, where 'a = nat] unsigned_less [of hi, where 'a = nat] by simp_all
  ultimately show ?thesis
    by (simp add: unat_word_ariths unat_ucast_count push_bit_eq_mult)
qed

lemma gate_bit: "((r :: uint8_t) AND push_bit 6 1 \<noteq> 0) = bit r 6"
  by (simp add: bit_iff_and_push_bit_not_eq_0)


lemma command_prog_multi:
  assumes "distinct (opcodes cfg)" "length (buf s) = PROTO_PROG_MULTI_MAX cfg"
    "length ds = unat n" "unat n \<le> PROTO_PROG_MULTI_MAX cfg"
  shows "command cfg drv (s\<lparr>rx := PROTO_PROG_MULTI cfg # n # ds @ t # rest\<rparr>) =
     Done (if t \<noteq> PROTO_EOC cfg
           then s\<lparr>rx := rest, LED_BOOTLOADER := False, buf := ds @ drop (unat n) (buf s)\<rparr>
           else s\<lparr>rx := rest, LED_BOOTLOADER := False, buf := ds @ drop (unat n) (buf s),
                  address := address s + ucast n,
                  flash := fold (\<lambda>k. flash_write_byte drv (address s + of_nat k) (ds ! k))
                             [0..<unat n] (flash s),
                  trace := trace s @
                    map (\<lambda>k. FlashWrite (address s + of_nat k) (ds ! k)) [0..<unat n] @
                    [Cout (PROTO_INSYNC cfg), Cout (PROTO_OK cfg)]\<rparr>)"
proof -
  let ?s1 = "s\<lparr>LED_BOOTLOADER := False, rx := ds @ t # rest\<rparr>"
  let ?s2 = "s\<lparr>rx := t # rest, LED_BOOTLOADER := False, buf := ds @ drop (unat n) (buf s)\<rparr>"
  let ?s3 = "s\<lparr>rx := rest, LED_BOOTLOADER := False, buf := ds @ drop (unat n) (buf s)\<rparr>"
  have stage: "stage_loop n 0 ?s1 = Done ?s2"
    using assms by (subst stage_loop_done [where ds = ds and rest = "t # rest"]) simp_all
  have eoc: "cin ?s2 = Done (t, ?s3)"
    by (simp add: cin_def)
  have fits: "unat n \<le> length (buf ?s3)"
    using assms by simp
  have nth: "\<And>k. k \<in> set [0..<unat n] \<Longrightarrow> buf ?s3 ! (unat (0 :: uint8_t) + k) = ds ! k"
    using assms by (simp add: nth_append)
  have writes: "fold (\<lambda>k. flash_write_byte drv (address ?s3 + of_nat k) (buf ?s3 ! (unat (0 :: uint8_t) + k)))
                  [0..<unat n] (flash ?s3)
              = fold (\<lambda>k. flash_write_byte drv (address s + of_nat k) (ds ! k)) [0..<unat n] (flash s)"
    using nth by (intro fold_cong) simp_all
  have events: "map (\<lambda>k. FlashWrite (address ?s3 + of_nat k) (buf ?s3 ! (unat (0 :: uint8_t) + k))) [0..<unat n]
              = map (\<lambda>k. FlashWrite (address s + of_nat k) (ds ! k)) [0..<unat n]"
    using nth by (intro map_cong) simp_all
  have prog: "prog_loop drv n 0 ?s3 =
      Done (?s3\<lparr>address := address s + ucast n,
                  flash := fold (\<lambda>k. flash_write_byte drv (address s + of_nat k) (ds ! k))
                             [0..<unat n] (flash s),
                  trace := trace s @ map (\<lambda>k. FlashWrite (address s + of_nat k) (ds ! k)) [0..<unat n]\<rparr>)"
    unfolding prog_loop_done [where n = "unat n" and i = 0 and count = n and s = ?s3, OF _ _ fits, simplified]
    using writes events by simp
  have head: "command cfg drv (s\<lparr>rx := PROTO_PROG_MULTI cfg # n # ds @ t # rest\<rparr>) =
      (case stage_loop n 0 ?s1 of
         Blocked b \<Rightarrow> Blocked b
       | Overrun k \<Rightarrow> Overrun k
       | Done s2 \<Rightarrow>
           (case cin s2 of
              Blocked b \<Rightarrow> Blocked b
            | Overrun k \<Rightarrow> Overrun k
            | Done (t, s3) \<Rightarrow>
                if t \<noteq> PROTO_EOC cfg then cmd_bad s3
                else
                  (case prog_loop drv n 0 s3 of
                     Blocked b \<Rightarrow> Blocked b
                   | Overrun k \<Rightarrow> Overrun k
                   | Done s4 \<Rightarrow> cmd_ok cfg s4)))"
    using opcodes_neq [OF assms(1)] assms(4)
    by (simp add: command_def cin_def dispatch_def)
  show ?thesis
    unfolding head stage
    by (simp add: eoc prog cmd_bad_def cmd_ok_def sync_response_def cout_def)
qed

lemma command_read_multi:
  assumes "distinct (opcodes cfg)"
  shows "command cfg drv (s\<lparr>rx := PROTO_READ_MULTI cfg # n # t # rest\<rparr>) =
     Done (if t \<noteq> PROTO_EOC cfg
           then s\<lparr>rx := rest, LED_BOOTLOADER := False\<rparr>
           else s\<lparr>rx := rest, LED_BOOTLOADER := False,
                  address := address s + ucast n,
                  trace := trace s @
                    concat (map (\<lambda>k. [FlashRead (address s + of_nat k),
                                       Cout (flash_read_byte drv (address s + of_nat k) (flash s))])
                              [0..<unat n]) @
                    [Cout (PROTO_INSYNC cfg), Cout (PROTO_OK cfg)]\<rparr>)"
  using opcodes_neq [OF assms(1)]
  by (simp add: command_def cin_def dispatch_def cmd_bad_def cmd_ok_def sync_response_def cout_def
      read_loop_done [where n = "unat n" and i = 0 and count = n, simplified])

subsection \<open>No store outside \<open>buf\<close>\<close>

lemma get_uint16_no_overrun: "get_uint16 s \<noteq> Overrun k"
  by (simp add: get_uint16_def cin_def split: list.splits)

lemma dispatch_no_overrun:
  assumes "length (buf s) = PROTO_PROG_MULTI_MAX cfg"
  shows "dispatch cfg drv c s \<noteq> Overrun k"
proof -
  have multi: "(case cin s of
           Blocked b \<Rightarrow> Blocked b
         | Overrun k \<Rightarrow> Overrun k
         | Done (count, s1) \<Rightarrow>
             if unat count > PROTO_PROG_MULTI_MAX cfg then cmd_bad s1
             else
               (case stage_loop count 0 s1 of
                  Blocked b \<Rightarrow> Blocked b
                | Overrun k \<Rightarrow> Overrun k
                | Done s2 \<Rightarrow>
                    (case cin s2 of
                       Blocked b \<Rightarrow> Blocked b
                     | Overrun k \<Rightarrow> Overrun k
                     | Done (t, s3) \<Rightarrow>
                         if t \<noteq> PROTO_EOC cfg then cmd_bad s3
                         else
                           (case prog_loop drv count 0 s3 of
                              Blocked b \<Rightarrow> Blocked b
                            | Overrun k \<Rightarrow> Overrun k
                            | Done s4 \<Rightarrow> cmd_ok cfg s4)))) \<noteq> Overrun k"
    using assms
    by (auto simp: cin_Done_iff cmd_bad_def cmd_ok_def stage_loop_no_overrun prog_loop_no_overrun
        split: step.splits dest!: stage_loop_keeps)
  have ok: "\<And>u. cmd_ok cfg u \<noteq> Overrun k" and bad: "\<And>u. cmd_bad u \<noteq> Overrun k"
    by (simp_all add: cmd_ok_def cmd_bad_def)
  have load: "(case get_uint16 s of
           Blocked b \<Rightarrow> Blocked b
         | Overrun k \<Rightarrow> Overrun k
         | Done (val, s1) \<Rightarrow>
             (case cin (s1\<lparr>address := val\<rparr>) of
                Blocked b \<Rightarrow> Blocked b
              | Overrun k \<Rightarrow> Overrun k
              | Done (t, s2) \<Rightarrow> if t \<noteq> PROTO_EOC cfg then cmd_bad s2 else cmd_ok cfg s2))
         \<noteq> Overrun k"
    by (simp add: ok bad get_uint16_no_overrun split: step.splits prod.splits)
  have prog: "(case cin s of
           Blocked b \<Rightarrow> Blocked b
         | Overrun k \<Rightarrow> Overrun k
         | Done (c1, s1) \<Rightarrow>
             (case cin s1 of
                Blocked b \<Rightarrow> Blocked b
              | Overrun k \<Rightarrow> Overrun k
              | Done (t, s2) \<Rightarrow>
                  if t \<noteq> PROTO_EOC cfg then cmd_bad s2
                  else cmd_ok cfg
                         (call_flash_write_byte drv (address s2) c1
                            (s2\<lparr>address := address s2 + 1\<rparr>)))) \<noteq> Overrun k"
    by (simp add: ok bad split: step.splits prod.splits)
  have rmulti: "(case cin s of
           Blocked b \<Rightarrow> Blocked b
         | Overrun k \<Rightarrow> Overrun k
         | Done (count, s1) \<Rightarrow>
             (case cin s1 of
                Blocked b \<Rightarrow> Blocked b
              | Overrun k \<Rightarrow> Overrun k
              | Done (t, s2) \<Rightarrow>
                  if t \<noteq> PROTO_EOC cfg then cmd_bad s2
                  else cmd_ok cfg (read_loop drv count 0 s2))) \<noteq> Overrun k"
    by (simp add: ok bad split: step.splits prod.splits)
  have rd: "(case call_flash_read_byte drv (address s) (s\<lparr>address := address s + 1\<rparr>) of
           (c1, s1) \<Rightarrow> cmd_ok cfg (cout c1 s1)) \<noteq> Overrun k"
    by (simp add: ok split: prod.splits)
  have branch: "\<And>b x y. x \<noteq> Overrun k \<Longrightarrow> y \<noteq> Overrun k \<Longrightarrow> (if b then x else y) \<noteq> Overrun k"
    by simp
  show ?thesis
    unfolding dispatch_def
    by (intro branch ok bad multi load prog rmulti rd)
qed

lemma command_no_overrun:
  assumes "length (buf s) = PROTO_PROG_MULTI_MAX cfg"
  shows "command cfg drv s \<noteq> Overrun k"
  using assms
  by (auto simp: command_def Let_def cmd_bad_def cin_Done_iff dispatch_no_overrun split: step.splits)

lemma main_loop_no_overrun:
  "length (buf s) = PROTO_PROG_MULTI_MAX cfg \<Longrightarrow> main_loop cfg drv s \<noteq> Overrun k"
proof (induction cfg drv s rule: main_loop.induct)
  case (1 cfg drv s)
  show ?case
  proof (cases "command cfg drv s")
    case (Blocked b)
    then show ?thesis
      by (subst main_loop.simps) simp
  next
    case (Overrun j)
    with command_no_overrun [OF "1.prems"] show ?thesis
      by simp
  next
    case (Done s1)
    then have "length (buf s1) = PROTO_PROG_MULTI_MAX cfg"
      using command_keeps [OF Done] "1.prems" by simp
    from "1.IH" [OF Done this] Done show ?thesis
      by (subst main_loop.simps) simp
  qed
qed





subsection \<open>The cursor as a number\<close>

lemma cursor_inc: "(a :: uint16_t) + 1 = word_of_nat ((unat a + 1) mod 65536)"
  using cursor_add_nat [of a 1] by simp

lemma cursor_add_ucast:
  "(a :: uint16_t) + ucast (n :: uint8_t) = word_of_nat ((unat a + unat n) mod 65536)"
  using cursor_add_nat [of a "unat n"] by simp

section \<open>A configuration to run the model on\<close>

text \<open>
  Sample values for the constants: pairwise distinct command bytes and a buffer of
  four bytes. The sample flash is a plain array of 65536 bytes that reads back what
  was written, erased to \<open>0xFF\<close>.
\<close>

definition test_config :: config where
  "test_config =
     \<lparr>PROTO_OK = 0x10, PROTO_INSYNC = 0x12, PROTO_EOC = 0x20, PROTO_GET_SYNC = 0x21,
      PROTO_GET_DEVICE = 0x22, PROTO_CHIP_ERASE = 0x23, PROTO_PARAM_ERASE = 0x29,
      PROTO_LOAD_ADDRESS = 0x24, PROTO_PROG_FLASH = 0x25, PROTO_READ_FLASH = 0x26,
      PROTO_PROG_MULTI = 0x27, PROTO_READ_MULTI = 0x28, PROTO_REBOOT = 0x30,
      PROTO_PROG_MULTI_MAX = 4, BOARD_ID = 0x4E, board_frequency = 0x43, BL_VERSION = 1,
      BUTTON_ACTIVE = False\<rparr>"

definition test_driver :: "(uint16_t \<Rightarrow> uint8_t) flash_driver" where
  "test_driver =
     \<lparr>flash_app_valid = (\<lambda>f. f 0 \<noteq> 0xFF),
      flash_erase_app = (\<lambda>f a. 0xFF),
      flash_erase_scratch = (\<lambda>f. f),
      flash_write_byte = (\<lambda>a b f. f(a := b)),
      flash_read_byte = (\<lambda>a f. f a)\<rparr>"

definition test_machine :: "(uint16_t \<Rightarrow> uint8_t) machine" where
  "test_machine =
     \<lparr>rx = [], trace = [], flash = (\<lambda>a. 0xFF), address = 0, buf = [0, 0, 0, 0],
      RSTSRC = 0, BUTTON_BOOTLOAD = True, LED_BOOTLOADER = False\<rparr>"

lemma test_config_distinct: "distinct (opcodes test_config)"
  by (simp add: opcodes_def test_config_def)


section \<open>The claims\<close>

text \<open>
  In every statement below a frame is what the host has sent: the state \<open>s\<close> with
  its receive queue set to the bytes of the frame followed by whatever comes after it
  (\<open>rest\<close>). \<open>command\<close> is one pass of the main loop, which takes the frame. A
  result \<open>Done (s\<lparr>\<dots>\<rparr>)\<close> lists all that the pass changed: a field that is not
  listed (\<open>flash\<close>, \<open>trace\<close>, \<open>address\<close>, \<open>buf\<close>) is as it was.
\<close>







text \<open>
  Claim C3. \<open>bootloader()\<close> jumps to the application exactly when bit 6 of \<open>RSTSRC\<close>
  (the flash error flag) is clear, \<open>flash_app_valid()\<close> holds and the bootload button is
  not at its active level; when any of the three fails it enters the main loop, with
  the cursor at 0.
\<close>

theorem boot_gate_iff:
  "(bootloader cfg drv s = Application (board_frequency cfg) (BL_VERSION cfg)) =
     (\<not> bit (RSTSRC s) 6 \<and> flash_app_valid drv (flash s)
      \<and> BUTTON_BOOTLOAD s \<noteq> BUTTON_ACTIVE cfg)
   \<and> (bootloader cfg drv s =
        CommandLoop (main_loop cfg drv (s\<lparr>LED_BOOTLOADER := True, address := 0\<rparr>))) =
     (bit (RSTSRC s) 6 \<or> \<not> flash_app_valid drv (flash s)
      \<or> BUTTON_BOOTLOAD s = BUTTON_ACTIVE cfg)"
proof -
  have gate: "(RSTSRC s AND push_bit 6 1 \<noteq> 0) = bit (RSTSRC s) 6"
    by (rule gate_bit)
  show ?thesis
    unfolding bootloader_def Let_def
    by (auto simp: gate simp del: push_bit_numeral push_bit_of_1)
qed

theorem boot_gate_iff_witness:
  "bootloader test_config test_driver (test_machine\<lparr>flash := (\<lambda>a. 0x02)\<rparr>) = Application 0x43 1
   \<and> bootloader test_config test_driver (test_machine\<lparr>flash := (\<lambda>a. 0x02), RSTSRC := 0x40\<rparr>) =
       CommandLoop (main_loop test_config test_driver
         (test_machine\<lparr>flash := (\<lambda>a. 0x02), RSTSRC := 0x40, LED_BOOTLOADER := True, address := 0\<rparr>))
   \<and> bootloader test_config test_driver test_machine =
       CommandLoop (main_loop test_config test_driver
         (test_machine\<lparr>LED_BOOTLOADER := True, address := 0\<rparr>))
   \<and> bootloader test_config test_driver
         (test_machine\<lparr>flash := (\<lambda>a. 0x02), BUTTON_BOOTLOAD := False\<rparr>) =
       CommandLoop (main_loop test_config test_driver
         (test_machine\<lparr>flash := (\<lambda>a. 0x02), BUTTON_BOOTLOAD := False,
                        LED_BOOTLOADER := True, address := 0\<rparr>))"
  using boot_gate_iff [of test_config test_driver "test_machine\<lparr>flash := (\<lambda>a. 0x02)\<rparr>"]
    boot_gate_iff [of test_config test_driver "test_machine\<lparr>flash := (\<lambda>a. 0x02), RSTSRC := 0x40\<rparr>"]
    boot_gate_iff [of test_config test_driver test_machine]
    boot_gate_iff [of test_config test_driver
      "test_machine\<lparr>flash := (\<lambda>a. 0x02), BUTTON_BOOTLOAD := False\<rparr>"]
  apply (simp add: test_config_def test_machine_def test_driver_def)
  done

text \<open>
  Claim C4. A \<open>LOAD_ADDRESS\<close> frame with the argument bytes \<open>lo\<close>, \<open>hi\<close> and the
  terminator \<open>PROTO_EOC\<close> sets the cursor to \<open>lo | (hi << 8)\<close>, the number
  \<open>lo + 256 * hi\<close>, and is acknowledged. A \<open>READ_FLASH\<close> frame after it calls
  \<open>flash_read_byte\<close> at that address, sends the byte it returns, then the
  acknowledgement, and leaves the cursor one further.
\<close>

theorem load_address_then_read_flash:
  assumes "distinct (opcodes cfg)"
  shows
    "command cfg drv (s\<lparr>rx := PROTO_LOAD_ADDRESS cfg # lo # hi # PROTO_EOC cfg # rest\<rparr>) =
       Done (s\<lparr>rx := rest, LED_BOOTLOADER := False,
               address := ucast lo OR push_bit 8 (ucast hi),
               trace := trace s @ [Cout (PROTO_INSYNC cfg), Cout (PROTO_OK cfg)]\<rparr>)
     \<and> unat (ucast lo OR push_bit 8 (ucast hi) :: uint16_t) = unat lo + 256 * unat hi
     \<and> (case command cfg drv
               (s\<lparr>rx := PROTO_LOAD_ADDRESS cfg # lo # hi # PROTO_EOC cfg #
                          PROTO_READ_FLASH cfg # PROTO_EOC cfg # rest\<rparr>) of
           Blocked b \<Rightarrow> Blocked b
         | Overrun k \<Rightarrow> Overrun k
         | Done s1 \<Rightarrow> command cfg drv s1) =
       Done (s\<lparr>rx := rest, LED_BOOTLOADER := False,
               address := (ucast lo OR push_bit 8 (ucast hi)) + 1,
               trace := trace s @
                 [Cout (PROTO_INSYNC cfg), Cout (PROTO_OK cfg),
                  FlashRead (ucast lo OR push_bit 8 (ucast hi)),
                  Cout (flash_read_byte drv (ucast lo OR push_bit 8 (ucast hi)) (flash s)),
                  Cout (PROTO_INSYNC cfg), Cout (PROTO_OK cfg)]\<rparr>)"
proof -
  let ?a = "ucast lo OR push_bit 8 (ucast hi) :: uint16_t"
  have load: "\<And>rest. command cfg drv (s\<lparr>rx := PROTO_LOAD_ADDRESS cfg # lo # hi # PROTO_EOC cfg # rest\<rparr>) =
       Done (s\<lparr>rx := rest, LED_BOOTLOADER := False, address := ?a,
               trace := trace s @ [Cout (PROTO_INSYNC cfg), Cout (PROTO_OK cfg)]\<rparr>)"
    by (simp add: command_load_address [OF assms])
  let ?u = "s\<lparr>LED_BOOTLOADER := False, address := ?a,
               trace := trace s @ [Cout (PROTO_INSYNC cfg), Cout (PROTO_OK cfg)]\<rparr>"
  have mid: "s\<lparr>rx := PROTO_READ_FLASH cfg # PROTO_EOC cfg # rest, LED_BOOTLOADER := False,
               address := ?a,
               trace := trace s @ [Cout (PROTO_INSYNC cfg), Cout (PROTO_OK cfg)]\<rparr>
             = ?u\<lparr>rx := PROTO_READ_FLASH cfg # PROTO_EOC cfg # rest\<rparr>"
    by simp
  have both: "(case command cfg drv
               (s\<lparr>rx := PROTO_LOAD_ADDRESS cfg # lo # hi # PROTO_EOC cfg #
                          PROTO_READ_FLASH cfg # PROTO_EOC cfg # rest\<rparr>) of
           Blocked b \<Rightarrow> Blocked b
         | Overrun k \<Rightarrow> Overrun k
         | Done s1 \<Rightarrow> command cfg drv s1) =
       Done (s\<lparr>rx := rest, LED_BOOTLOADER := False, address := ?a + 1,
               trace := trace s @
                 [Cout (PROTO_INSYNC cfg), Cout (PROTO_OK cfg),
                  FlashRead ?a, Cout (flash_read_byte drv ?a (flash s)),
                  Cout (PROTO_INSYNC cfg), Cout (PROTO_OK cfg)]\<rparr>)"
    unfolding load step.case mid command_read_flash [OF assms]
    by simp
  from load [of rest] decode_le [of lo hi] both show ?thesis
    by (intro conjI)
qed

theorem load_address_then_read_flash_witness:
  "command test_config test_driver (test_machine\<lparr>rx := [0x24, 0x34, 0x12, 0x20]\<rparr>) =
     Done (test_machine\<lparr>address := 0x1234, trace := [Cout 0x12, Cout 0x10]\<rparr>)
   \<and> (case command test_config test_driver
             (test_machine\<lparr>rx := [0x24, 0x34, 0x12, 0x20, 0x26, 0x20]\<rparr>) of
         Blocked b \<Rightarrow> Blocked b
       | Overrun k \<Rightarrow> Overrun k
       | Done s1 \<Rightarrow> command test_config test_driver s1) =
     Done (test_machine\<lparr>address := 0x1235,
             trace := [Cout 0x12, Cout 0x10, FlashRead 0x1234, Cout 0xFF, Cout 0x12, Cout 0x10]\<rparr>)"
  using load_address_then_read_flash [OF test_config_distinct,
      where drv = test_driver and s = test_machine and lo = "0x34" and hi = "0x12" and rest = "[]"]
  by (simp add: test_config_def test_machine_def test_driver_def)

text \<open>
  Claim C5. A \<open>READ_MULTI\<close> frame with the count byte \<open>n\<close> and the terminator
  \<open>PROTO_EOC\<close> reads exactly \<open>n\<close> bytes: for \<open>k = 0, \<dots>, n - 1\<close> in this order it
  calls \<open>flash_read_byte\<close> at the cursor before the command plus \<open>k\<close> and sends the
  byte at once; the acknowledgement follows and the cursor ends \<open>n\<close> further, modulo
  \<open>2 ^ 16\<close>.
\<close>

theorem read_multi_streams_in_order:
  assumes "distinct (opcodes cfg)"
  shows
    "command cfg drv (s\<lparr>rx := PROTO_READ_MULTI cfg # n # PROTO_EOC cfg # rest\<rparr>) =
       Done (s\<lparr>rx := rest, LED_BOOTLOADER := False,
               address := address s + ucast n,
               trace := trace s @
                 concat (map (\<lambda>k. [FlashRead (address s + of_nat k),
                                    Cout (flash_read_byte drv (address s + of_nat k) (flash s))])
                           [0..<unat n]) @
                 [Cout (PROTO_INSYNC cfg), Cout (PROTO_OK cfg)]\<rparr>)
     \<and> unat (address s + ucast n) = (unat (address s) + unat n) mod 2 ^ 16"
  by (simp add: command_read_multi [OF assms] cursor_add_count)

theorem read_multi_streams_in_order_witness:
  "command test_config test_driver
      (test_machine\<lparr>flash := (\<lambda>a. ucast a), address := 0x0410, rx := [0x28, 3, 0x20]\<rparr>) =
     Done (test_machine\<lparr>flash := (\<lambda>a. ucast a), address := 0x0413,
             trace := [FlashRead 0x0410, Cout 0x10, FlashRead 0x0411, Cout 0x11,
                       FlashRead 0x0412, Cout 0x12, Cout 0x12, Cout 0x10]\<rparr>)"
proof -
  have three: "[0..<3] = [0, 1, 2]"
    by (simp add: upt_rec)
  show ?thesis
    using read_multi_streams_in_order [OF test_config_distinct,
        where drv = test_driver and s = "test_machine\<lparr>flash := (\<lambda>a. ucast a), address := 0x0410\<rparr>"
          and n = 3 and rest = "[]"]
    by (simp add: test_config_def test_machine_def test_driver_def three)
qed

text \<open>
  Claim C6. After \<open>GET_SYNC\<close>, \<open>CHIP_ERASE\<close>, \<open>PARAM_ERASE\<close>, \<open>LOAD_ADDRESS\<close> and
  \<open>PROG_FLASH\<close> with the terminator \<open>PROTO_EOC\<close> the bytes sent are
  \<open>PROTO_INSYNC\<close>, \<open>PROTO_OK\<close> and nothing else: these are the only \<open>Cout\<close> events
  the pass adds to the trace. \<open>GET_DEVICE\<close> sends the board identity and the board
  frequency first, \<open>READ_FLASH\<close> the byte read, \<open>READ_MULTI\<close> the \<open>n\<close> bytes read,
  and the two acknowledgement bytes come last.
\<close>

theorem acknowledgement_follows_response:
  assumes "distinct (opcodes cfg)"
  shows
    "command cfg drv (s\<lparr>rx := PROTO_GET_SYNC cfg # PROTO_EOC cfg # rest\<rparr>) =
       Done (s\<lparr>rx := rest, LED_BOOTLOADER := False,
               trace := trace s @ [Cout (PROTO_INSYNC cfg), Cout (PROTO_OK cfg)]\<rparr>)
     \<and> command cfg drv (s\<lparr>rx := PROTO_CHIP_ERASE cfg # PROTO_EOC cfg # rest\<rparr>) =
       Done (s\<lparr>rx := rest, LED_BOOTLOADER := False, flash := flash_erase_app drv (flash s),
               trace := trace s @ [EraseApp, Cout (PROTO_INSYNC cfg), Cout (PROTO_OK cfg)]\<rparr>)
     \<and> command cfg drv (s\<lparr>rx := PROTO_PARAM_ERASE cfg # PROTO_EOC cfg # rest\<rparr>) =
       Done (s\<lparr>rx := rest, LED_BOOTLOADER := False,
               flash := flash_erase_scratch drv (flash s),
               trace := trace s @ [EraseScratch, Cout (PROTO_INSYNC cfg), Cout (PROTO_OK cfg)]\<rparr>)
     \<and> command cfg drv (s\<lparr>rx := PROTO_LOAD_ADDRESS cfg # lo # hi # PROTO_EOC cfg # rest\<rparr>) =
       Done (s\<lparr>rx := rest, LED_BOOTLOADER := False,
               address := ucast lo OR push_bit 8 (ucast hi),
               trace := trace s @ [Cout (PROTO_INSYNC cfg), Cout (PROTO_OK cfg)]\<rparr>)
     \<and> command cfg drv (s\<lparr>rx := PROTO_PROG_FLASH cfg # d # PROTO_EOC cfg # rest\<rparr>) =
       Done (s\<lparr>rx := rest, LED_BOOTLOADER := False, address := address s + 1,
               flash := flash_write_byte drv (address s) d (flash s),
               trace := trace s @ [FlashWrite (address s) d,
                                   Cout (PROTO_INSYNC cfg), Cout (PROTO_OK cfg)]\<rparr>)
     \<and> command cfg drv (s\<lparr>rx := PROTO_GET_DEVICE cfg # PROTO_EOC cfg # rest\<rparr>) =
       Done (s\<lparr>rx := rest, LED_BOOTLOADER := False,
               trace := trace s @ [Cout (BOARD_ID cfg), Cout (board_frequency cfg),
                                   Cout (PROTO_INSYNC cfg), Cout (PROTO_OK cfg)]\<rparr>)
     \<and> command cfg drv (s\<lparr>rx := PROTO_READ_FLASH cfg # PROTO_EOC cfg # rest\<rparr>) =
       Done (s\<lparr>rx := rest, LED_BOOTLOADER := False, address := address s + 1,
               trace := trace s @ [FlashRead (address s),
                                   Cout (flash_read_byte drv (address s) (flash s)),
                                   Cout (PROTO_INSYNC cfg), Cout (PROTO_OK cfg)]\<rparr>)
     \<and> command cfg drv (s\<lparr>rx := PROTO_READ_MULTI cfg # n # PROTO_EOC cfg # rest\<rparr>) =
       Done (s\<lparr>rx := rest, LED_BOOTLOADER := False, address := address s + ucast n,
               trace := trace s @
                 concat (map (\<lambda>k. [FlashRead (address s + of_nat k),
                                    Cout (flash_read_byte drv (address s + of_nat k) (flash s))])
                           [0..<unat n]) @
                 [Cout (PROTO_INSYNC cfg), Cout (PROTO_OK cfg)]\<rparr>)"
proof -
  have load: "command cfg drv (s\<lparr>rx := PROTO_LOAD_ADDRESS cfg # lo # hi # PROTO_EOC cfg # rest\<rparr>) =
       Done (s\<lparr>rx := rest, LED_BOOTLOADER := False,
               address := ucast lo OR push_bit 8 (ucast hi),
               trace := trace s @ [Cout (PROTO_INSYNC cfg), Cout (PROTO_OK cfg)]\<rparr>)"
    by (simp add: command_load_address [OF assms])
  have prog: "command cfg drv (s\<lparr>rx := PROTO_PROG_FLASH cfg # d # PROTO_EOC cfg # rest\<rparr>) =
       Done (s\<lparr>rx := rest, LED_BOOTLOADER := False, address := address s + 1,
               flash := flash_write_byte drv (address s) d (flash s),
               trace := trace s @ [FlashWrite (address s) d,
                                   Cout (PROTO_INSYNC cfg), Cout (PROTO_OK cfg)]\<rparr>)"
    by (simp add: command_prog_flash [OF assms])
  have rmulti: "command cfg drv (s\<lparr>rx := PROTO_READ_MULTI cfg # n # PROTO_EOC cfg # rest\<rparr>) =
       Done (s\<lparr>rx := rest, LED_BOOTLOADER := False, address := address s + ucast n,
               trace := trace s @
                 concat (map (\<lambda>k. [FlashRead (address s + of_nat k),
                                    Cout (flash_read_byte drv (address s + of_nat k) (flash s))])
                           [0..<unat n]) @
                 [Cout (PROTO_INSYNC cfg), Cout (PROTO_OK cfg)]\<rparr>)"
    by (simp add: command_read_multi [OF assms])
  show ?thesis
    by (intro conjI command_get_sync command_chip_erase [OF assms] command_param_erase [OF assms]
        load prog command_get_device [OF assms] command_read_flash [OF assms] rmulti)
qed

theorem acknowledgement_follows_response_witness:
  "command test_config test_driver (test_machine\<lparr>rx := [0x21, 0x20]\<rparr>) =
     Done (test_machine\<lparr>trace := [Cout 0x12, Cout 0x10]\<rparr>)
   \<and> command test_config test_driver (test_machine\<lparr>rx := [0x23, 0x20]\<rparr>) =
     Done (test_machine\<lparr>trace := [EraseApp, Cout 0x12, Cout 0x10]\<rparr>)
   \<and> command test_config test_driver (test_machine\<lparr>rx := [0x29, 0x20]\<rparr>) =
     Done (test_machine\<lparr>trace := [EraseScratch, Cout 0x12, Cout 0x10]\<rparr>)
   \<and> command test_config test_driver (test_machine\<lparr>rx := [0x24, 0x34, 0x12, 0x20]\<rparr>) =
     Done (test_machine\<lparr>address := 0x1234, trace := [Cout 0x12, Cout 0x10]\<rparr>)
   \<and> command test_config test_driver (test_machine\<lparr>rx := [0x25, 0xAA, 0x20]\<rparr>) =
     Done (test_machine\<lparr>address := 1, flash := (\<lambda>a. 0xFF)(0 := 0xAA),
             trace := [FlashWrite 0 0xAA, Cout 0x12, Cout 0x10]\<rparr>)
   \<and> command test_config test_driver (test_machine\<lparr>rx := [0x22, 0x20]\<rparr>) =
     Done (test_machine\<lparr>trace := [Cout 0x4E, Cout 0x43, Cout 0x12, Cout 0x10]\<rparr>)
   \<and> command test_config test_driver (test_machine\<lparr>rx := [0x26, 0x20]\<rparr>) =
     Done (test_machine\<lparr>address := 1, trace := [FlashRead 0, Cout 0xFF, Cout 0x12, Cout 0x10]\<rparr>)
   \<and> command test_config test_driver (test_machine\<lparr>rx := [0x28, 2, 0x20]\<rparr>) =
     Done (test_machine\<lparr>address := 2,
             trace := [FlashRead 0, Cout 0xFF, FlashRead 1, Cout 0xFF, Cout 0x12, Cout 0x10]\<rparr>)"
proof -
  have two: "[0..<2] = [0, 1]"
    by (simp add: upt_rec)
  show ?thesis
    using acknowledgement_follows_response [OF test_config_distinct,
        where drv = test_driver and s = test_machine and rest = "[]" and lo = "0x34" and hi = "0x12"
          and d = "0xAA" and n = 2]
    by (simp add: test_config_def test_machine_def test_driver_def two)
qed

text \<open>
  Claim C7. A command byte that is none of the ten \<open>case\<close> labels makes the pass end
  with nothing sent, no call into the flash driver and the cursor where it was: only
  the byte itself has been taken from the queue.
\<close>

theorem unknown_opcode_is_silent:
  assumes "c \<notin> set (opcodes cfg)"
  shows "command cfg drv (s\<lparr>rx := c # rest\<rparr>) = Done (s\<lparr>rx := rest, LED_BOOTLOADER := False\<rparr>)"
  by (rule command_unknown [OF assms])

theorem unknown_opcode_is_silent_witness:
  "0x7F \<notin> set (opcodes test_config)
   \<and> command test_config test_driver
         (test_machine\<lparr>address := 0x0400, trace := [Cout 0x12, Cout 0x10], rx := [0x7F, 0x21, 0x20]\<rparr>) =
       Done (test_machine\<lparr>address := 0x0400, trace := [Cout 0x12, Cout 0x10], rx := [0x21, 0x20]\<rparr>)"
proof -
  have h: "0x7F \<notin> set (opcodes test_config)"
    by (simp add: opcodes_def test_config_def)
  show ?thesis
    using h unknown_opcode_is_silent [OF h, where drv = test_driver
        and s = "test_machine\<lparr>address := 0x0400, trace := [Cout 0x12, Cout 0x10]\<rparr>"
        and rest = "[0x21, 0x20]"]
    by (simp add: test_machine_def)
qed

text \<open>
  Claim C8. The cursor is a \<open>uint16_t\<close>: every \<open>address++\<close> is an addition modulo
  \<open>65536\<close>, and no pass faults on it. After \<open>PROG_FLASH\<close> and \<open>READ_FLASH\<close> the cursor
  is the old one plus 1 modulo \<open>65536\<close>; after \<open>PROG_MULTI\<close> and \<open>READ_MULTI\<close> it is
  the old one plus the count modulo \<open>65536\<close>, and the \<open>k\<close>-th byte of the transfer is
  at the old cursor plus \<open>k\<close> modulo \<open>65536\<close>, so a transfer that runs past \<open>0xFFFF\<close>
  goes on at address 0.
\<close>

theorem cursor_wraps_modulo_65536:
  assumes "distinct (opcodes cfg)" and "length (buf s) = PROTO_PROG_MULTI_MAX cfg"
    and "length ds = unat n" and "unat n \<le> PROTO_PROG_MULTI_MAX cfg"
  shows
    "command cfg drv (s\<lparr>rx := PROTO_PROG_FLASH cfg # d # PROTO_EOC cfg # rest\<rparr>) =
       Done (s\<lparr>rx := rest, LED_BOOTLOADER := False,
               address := word_of_nat ((unat (address s) + 1) mod 65536),
               flash := flash_write_byte drv (address s) d (flash s),
               trace := trace s @ [FlashWrite (address s) d,
                                   Cout (PROTO_INSYNC cfg), Cout (PROTO_OK cfg)]\<rparr>)
     \<and> command cfg drv (s\<lparr>rx := PROTO_READ_FLASH cfg # PROTO_EOC cfg # rest\<rparr>) =
       Done (s\<lparr>rx := rest, LED_BOOTLOADER := False,
               address := word_of_nat ((unat (address s) + 1) mod 65536),
               trace := trace s @ [FlashRead (address s),
                                   Cout (flash_read_byte drv (address s) (flash s)),
                                   Cout (PROTO_INSYNC cfg), Cout (PROTO_OK cfg)]\<rparr>)
     \<and> command cfg drv (s\<lparr>rx := PROTO_PROG_MULTI cfg # n # ds @ PROTO_EOC cfg # rest\<rparr>) =
       Done (s\<lparr>rx := rest, LED_BOOTLOADER := False, buf := ds @ drop (unat n) (buf s),
               address := word_of_nat ((unat (address s) + unat n) mod 65536),
               flash := fold (\<lambda>k. flash_write_byte drv
                                     (word_of_nat ((unat (address s) + k) mod 65536)) (ds ! k))
                          [0..<unat n] (flash s),
               trace := trace s @
                 map (\<lambda>k. FlashWrite (word_of_nat ((unat (address s) + k) mod 65536)) (ds ! k))
                   [0..<unat n] @
                 [Cout (PROTO_INSYNC cfg), Cout (PROTO_OK cfg)]\<rparr>)
     \<and> command cfg drv (s\<lparr>rx := PROTO_READ_MULTI cfg # m # PROTO_EOC cfg # rest\<rparr>) =
       Done (s\<lparr>rx := rest, LED_BOOTLOADER := False,
               address := word_of_nat ((unat (address s) + unat m) mod 65536),
               trace := trace s @
                 concat (map (\<lambda>k. [FlashRead (word_of_nat ((unat (address s) + k) mod 65536)),
                                    Cout (flash_read_byte drv
                                            (word_of_nat ((unat (address s) + k) mod 65536))
                                            (flash s))])
                           [0..<unat m]) @
                 [Cout (PROTO_INSYNC cfg), Cout (PROTO_OK cfg)]\<rparr>)"
proof -
  have prog: "command cfg drv (s\<lparr>rx := PROTO_PROG_FLASH cfg # d # PROTO_EOC cfg # rest\<rparr>) =
       Done (s\<lparr>rx := rest, LED_BOOTLOADER := False,
               address := word_of_nat ((unat (address s) + 1) mod 65536),
               flash := flash_write_byte drv (address s) d (flash s),
               trace := trace s @ [FlashWrite (address s) d,
                                   Cout (PROTO_INSYNC cfg), Cout (PROTO_OK cfg)]\<rparr>)"
    unfolding cursor_inc [symmetric]
    by (simp add: command_prog_flash [OF assms(1)])
  have read: "command cfg drv (s\<lparr>rx := PROTO_READ_FLASH cfg # PROTO_EOC cfg # rest\<rparr>) =
       Done (s\<lparr>rx := rest, LED_BOOTLOADER := False,
               address := word_of_nat ((unat (address s) + 1) mod 65536),
               trace := trace s @ [FlashRead (address s),
                                   Cout (flash_read_byte drv (address s) (flash s)),
                                   Cout (PROTO_INSYNC cfg), Cout (PROTO_OK cfg)]\<rparr>)"
    unfolding cursor_inc [symmetric]
    by (simp add: command_read_flash [OF assms(1)])
  have pmulti: "command cfg drv (s\<lparr>rx := PROTO_PROG_MULTI cfg # n # ds @ PROTO_EOC cfg # rest\<rparr>) =
       Done (s\<lparr>rx := rest, LED_BOOTLOADER := False, buf := ds @ drop (unat n) (buf s),
               address := word_of_nat ((unat (address s) + unat n) mod 65536),
               flash := fold (\<lambda>k. flash_write_byte drv
                                     (word_of_nat ((unat (address s) + k) mod 65536)) (ds ! k))
                          [0..<unat n] (flash s),
               trace := trace s @
                 map (\<lambda>k. FlashWrite (word_of_nat ((unat (address s) + k) mod 65536)) (ds ! k))
                   [0..<unat n] @
                 [Cout (PROTO_INSYNC cfg), Cout (PROTO_OK cfg)]\<rparr>)"
    unfolding cursor_add_nat [symmetric] cursor_add_ucast [symmetric]
    by (simp add: command_prog_multi [OF assms])
  have rmulti: "command cfg drv (s\<lparr>rx := PROTO_READ_MULTI cfg # m # PROTO_EOC cfg # rest\<rparr>) =
       Done (s\<lparr>rx := rest, LED_BOOTLOADER := False,
               address := word_of_nat ((unat (address s) + unat m) mod 65536),
               trace := trace s @
                 concat (map (\<lambda>k. [FlashRead (word_of_nat ((unat (address s) + k) mod 65536)),
                                    Cout (flash_read_byte drv
                                            (word_of_nat ((unat (address s) + k) mod 65536))
                                            (flash s))])
                           [0..<unat m]) @
                 [Cout (PROTO_INSYNC cfg), Cout (PROTO_OK cfg)]\<rparr>)"
    unfolding cursor_add_nat [symmetric] cursor_add_ucast [symmetric]
    by (simp add: command_read_multi [OF assms(1)])
  from prog read pmulti rmulti show ?thesis
    by (intro conjI)
qed

theorem cursor_wraps_modulo_65536_witness:
  "command test_config test_driver (test_machine\<lparr>address := 0xFFFF, rx := [0x25, 0xAA, 0x20]\<rparr>) =
     Done (test_machine\<lparr>address := 0, flash := (\<lambda>a. 0xFF)(0xFFFF := 0xAA),
             trace := [FlashWrite 0xFFFF 0xAA, Cout 0x12, Cout 0x10]\<rparr>)
   \<and> command test_config test_driver (test_machine\<lparr>address := 0xFFFF, rx := [0x26, 0x20]\<rparr>) =
     Done (test_machine\<lparr>address := 0,
             trace := [FlashRead 0xFFFF, Cout 0xFF, Cout 0x12, Cout 0x10]\<rparr>)
   \<and> command test_config test_driver
         (test_machine\<lparr>address := 0xFFFF, rx := [0x27, 2, 0xAA, 0xBB, 0x20]\<rparr>) =
     Done (test_machine\<lparr>buf := [0xAA, 0xBB, 0, 0], address := 1,
             flash := (\<lambda>a. 0xFF)(0xFFFF := 0xAA, 0 := 0xBB),
             trace := [FlashWrite 0xFFFF 0xAA, FlashWrite 0 0xBB, Cout 0x12, Cout 0x10]\<rparr>)
   \<and> command test_config test_driver (test_machine\<lparr>address := 0xFFFF, rx := [0x28, 3, 0x20]\<rparr>) =
     Done (test_machine\<lparr>address := 2,
             trace := [FlashRead 0xFFFF, Cout 0xFF, FlashRead 0, Cout 0xFF, FlashRead 1, Cout 0xFF,
                       Cout 0x12, Cout 0x10]\<rparr>)"
proof -
  have b: "length (buf (test_machine\<lparr>address := 0xFFFF\<rparr>)) = PROTO_PROG_MULTI_MAX test_config"
    by (simp add: test_machine_def test_config_def)
  have l: "length [0xAA, 0xBB :: uint8_t] = unat (2 :: uint8_t)"
    by simp
  have m: "unat (2 :: uint8_t) \<le> PROTO_PROG_MULTI_MAX test_config"
    by (simp add: test_config_def)
  have upto: "[0..<2] = [0, 1]" "[0..<3] = [0, 1, 2]"
    by (simp_all add: upt_rec)
  show ?thesis
    using cursor_wraps_modulo_65536 [OF test_config_distinct b l m,
        where drv = test_driver and rest = "[]" and d = "0xAA" and m = 3]
    by (simp add: test_config_def test_machine_def test_driver_def upto)
qed

text \<open>
  Claim C9. \<open>LOAD_ADDRESS\<close> assigns \<open>address\<close> before it looks at the terminator:
  with a terminator other than \<open>PROTO_EOC\<close> the pass ends without acknowledgement and
  without any other effect, but the cursor is the decoded \<open>lo + 256 * hi\<close>, not the
  value it had before.
\<close>

theorem load_address_not_rolled_back:
  assumes "distinct (opcodes cfg)" and "t \<noteq> PROTO_EOC cfg"
  shows
    "command cfg drv (s\<lparr>rx := PROTO_LOAD_ADDRESS cfg # lo # hi # t # rest\<rparr>) =
       Done (s\<lparr>rx := rest, LED_BOOTLOADER := False,
               address := ucast lo OR push_bit 8 (ucast hi)\<rparr>)
     \<and> unat (ucast lo OR push_bit 8 (ucast hi) :: uint16_t) = unat lo + 256 * unat hi"
  using assms(2) by (simp add: command_load_address [OF assms(1)] decode_le)

theorem load_address_not_rolled_back_witness:
  "command test_config test_driver
      (test_machine\<lparr>address := 0x0400, rx := [0x24, 0x34, 0x12, 0x00, 0x26, 0x20]\<rparr>) =
     Done (test_machine\<lparr>address := 0x1234, rx := [0x26, 0x20]\<rparr>)"
proof -
  have t: "0x00 \<noteq> PROTO_EOC test_config"
    by (simp add: test_config_def)
  show ?thesis
    using load_address_not_rolled_back [OF test_config_distinct t,
        where drv = test_driver and s = "test_machine\<lparr>address := 0x0400\<rparr>"
          and lo = "0x34" and hi = "0x12" and rest = "[0x26, 0x20]"]
    by (simp add: test_config_def test_machine_def)
qed

text \<open>
  Claim C10. The check on the count of \<open>PROG_MULTI\<close> is \<open>count > sizeof(buf)\<close>: a
  count equal to the size of \<open>buf\<close> is taken, and its bytes are staged and programmed.
  \<open>Overrun\<close> is the result of a store \<open>buf[i] = cin()\<close> (or a load \<open>buf[i]\<close>) with
  \<open>i\<close> not below the size of \<open>buf\<close>; no pass of the loop, on any input, and no run of
  the whole loop ends in it.
\<close>

theorem staging_stays_inside_buf:
  assumes "length (buf s) = PROTO_PROG_MULTI_MAX cfg"
  shows
    "command cfg drv s \<noteq> Overrun k
     \<and> main_loop cfg drv s \<noteq> Overrun k
     \<and> (distinct (opcodes cfg) \<and> unat n = PROTO_PROG_MULTI_MAX cfg \<and> length ds = unat n \<longrightarrow>
          command cfg drv (s\<lparr>rx := PROTO_PROG_MULTI cfg # n # ds @ PROTO_EOC cfg # rest\<rparr>) =
            Done (s\<lparr>rx := rest, LED_BOOTLOADER := False, buf := ds,
                    address := address s + ucast n,
                    flash := fold (\<lambda>k. flash_write_byte drv (address s + of_nat k) (ds ! k))
                               [0..<unat n] (flash s),
                    trace := trace s @
                      map (\<lambda>k. FlashWrite (address s + of_nat k) (ds ! k)) [0..<unat n] @
                      [Cout (PROTO_INSYNC cfg), Cout (PROTO_OK cfg)]\<rparr>))"
proof -
  have full: "distinct (opcodes cfg) \<and> unat n = PROTO_PROG_MULTI_MAX cfg \<and> length ds = unat n \<longrightarrow>
          command cfg drv (s\<lparr>rx := PROTO_PROG_MULTI cfg # n # ds @ PROTO_EOC cfg # rest\<rparr>) =
            Done (s\<lparr>rx := rest, LED_BOOTLOADER := False, buf := ds,
                    address := address s + ucast n,
                    flash := fold (\<lambda>k. flash_write_byte drv (address s + of_nat k) (ds ! k))
                               [0..<unat n] (flash s),
                    trace := trace s @
                      map (\<lambda>k. FlashWrite (address s + of_nat k) (ds ! k)) [0..<unat n] @
                      [Cout (PROTO_INSYNC cfg), Cout (PROTO_OK cfg)]\<rparr>)"
  proof (intro impI, elim conjE)
    assume d: "distinct (opcodes cfg)" and n: "unat n = PROTO_PROG_MULTI_MAX cfg"
      and l: "length ds = unat n"
    have le: "unat n \<le> PROTO_PROG_MULTI_MAX cfg"
      using n by simp
    have "drop (unat n) (buf s) = []"
      using assms n by simp
    then show "command cfg drv (s\<lparr>rx := PROTO_PROG_MULTI cfg # n # ds @ PROTO_EOC cfg # rest\<rparr>) =
            Done (s\<lparr>rx := rest, LED_BOOTLOADER := False, buf := ds,
                    address := address s + ucast n,
                    flash := fold (\<lambda>k. flash_write_byte drv (address s + of_nat k) (ds ! k))
                               [0..<unat n] (flash s),
                    trace := trace s @
                      map (\<lambda>k. FlashWrite (address s + of_nat k) (ds ! k)) [0..<unat n] @
                      [Cout (PROTO_INSYNC cfg), Cout (PROTO_OK cfg)]\<rparr>)"
      by (simp add: command_prog_multi [OF d assms l le])
  qed
  from command_no_overrun [OF assms] main_loop_no_overrun [OF assms] full show ?thesis
    by (intro conjI)
qed

theorem staging_stays_inside_buf_witness:
  "(\<forall>k. command test_config test_driver (test_machine\<lparr>rx := [0x27, 4, 1, 2, 3]\<rparr>) \<noteq> Overrun k)
   \<and> (\<forall>k. main_loop test_config test_driver (test_machine\<lparr>rx := [0x27, 4, 1, 2, 3]\<rparr>) \<noteq> Overrun k)
   \<and> command test_config test_driver (test_machine\<lparr>rx := [0x27, 4, 1, 2, 3, 4, 0x20]\<rparr>) =
       Done (test_machine\<lparr>buf := [1, 2, 3, 4], address := 4,
               flash := (\<lambda>a. 0xFF)(0 := 1, 1 := 2, 2 := 3, 3 := 4),
               trace := [FlashWrite 0 1, FlashWrite 1 2, FlashWrite 2 3, FlashWrite 3 4,
                         Cout 0x12, Cout 0x10]\<rparr>)"
proof -
  have b: "length (buf (test_machine\<lparr>rx := [0x27, 4, 1, 2, 3]\<rparr>)) = PROTO_PROG_MULTI_MAX test_config"
    by (simp add: test_machine_def test_config_def)
  have four: "[0..<4] = [0, 1, 2, 3]"
    by (simp add: upt_rec)
  have "command test_config test_driver (test_machine\<lparr>rx := [0x27, 4, 1, 2, 3, 4, 0x20]\<rparr>) =
       Done (test_machine\<lparr>buf := [1, 2, 3, 4], address := 4,
               flash := (\<lambda>a. 0xFF)(0 := 1, 1 := 2, 2 := 3, 3 := 4),
               trace := [FlashWrite 0 1, FlashWrite 1 2, FlashWrite 2 3, FlashWrite 3 4,
                         Cout 0x12, Cout 0x10]\<rparr>)"
    using staging_stays_inside_buf [OF b, where drv = test_driver and n = 4 and ds = "[1, 2, 3, 4]"
        and rest = "[]"] test_config_distinct
    by (simp add: test_config_def test_machine_def test_driver_def four)
  with staging_stays_inside_buf [OF b, where drv = test_driver] show ?thesis
    by blast
qed

end
